theory Spec2Isabelle
  imports Complex_Main "HOL-Library.Word"
begin

section \<open>Cost structures\<close>

text \<open>
  \<^verbatim>\<open>DefaultCostStructure<T>\<close> and \<^verbatim>\<open>HierarchicalCostStructure<T>\<close> (coststructure.hh)
  are two structs with the same six fields and the same \<^verbatim>\<open>+=\<close> and \<^verbatim>\<open>-=\<close>; they differ
  only in their comparison operators. One record stands for both. The cost type \<^verbatim>\<open>T\<close> is
  taken at its default \<^verbatim>\<open>int\<close> and read as the mathematical integers (signed overflow is
  undefined in C++, so the code promises nothing beyond them). The field \<^verbatim>\<open>weighted\<close> is a
  \<^verbatim>\<open>double\<close>; no arithmetic is done on it by the operations below, so its type is left
  open as \<open>'w\<close>. The field \<^verbatim>\<open>total\<close> is named \<open>total_cf\<close> here, \<open>total\<close> being a constant
  of the library.
\<close>

record 'w CostStructure =
  total_cf :: int
  violations :: int
  objective :: int
  all_components :: "int list"
  weighted :: 'w
  is_weighted :: bool

text \<open>The default constructor: all zero, no components, not weighted.\<close>

definition CostStructure0 :: "'w::zero CostStructure" where
  "CostStructure0 =
     \<lparr>total_cf = 0, violations = 0, objective = 0, all_components = [],
      weighted = 0, is_weighted = False\<rparr>"

text \<open>\<^verbatim>\<open>std::vector::resize(n, 0)\<close>: cut to \<open>n\<close> entries or fill up with zeros.\<close>

definition resize :: "int list \<Rightarrow> nat \<Rightarrow> int list" where
  "resize xs n = take n xs @ replicate (n - length xs) 0"

text \<open>
  The loops \<^verbatim>\<open>for (i = 0; i < other.size(); i++) this[i] += other[i]\<close> (and \<^verbatim>\<open>-=\<close>),
  run over the indices of \<open>other\<close>. They are entered only after \<open>this\<close> has been made at
  least as long as \<open>other\<close>, so every index they write exists.
\<close>

definition add_components :: "int list \<Rightarrow> int list \<Rightarrow> int list" where
  "add_components this other =
     foldl (\<lambda>c i. c[i := c ! i + other ! i]) this [0..<length other]"

definition sub_components :: "int list \<Rightarrow> int list \<Rightarrow> int list" where
  "sub_components this other =
     foldl (\<lambda>c i. c[i := c ! i - other ! i]) this [0..<length other]"

text \<open>\<^verbatim>\<open>operator+=\<close> and \<^verbatim>\<open>operator-=\<close>; \<open>weighted\<close> and \<open>is_weighted\<close> are not touched.\<close>

definition plus_eq :: "'w CostStructure \<Rightarrow> 'w CostStructure \<Rightarrow> 'w CostStructure" where
  "plus_eq this other =
     (let comps = (if length (all_components this) < length (all_components other)
                   then resize (all_components this) (length (all_components other))
                   else all_components this)
      in this\<lparr>total_cf := total_cf this + total_cf other,
              violations := violations this + violations other,
              objective := objective this + objective other,
              all_components := add_components comps (all_components other)\<rparr>)"

definition minus_eq :: "'w CostStructure \<Rightarrow> 'w CostStructure \<Rightarrow> 'w CostStructure" where
  "minus_eq this other =
     (let comps = (if length (all_components this) < length (all_components other)
                   then resize (all_components this) (length (all_components other))
                   else all_components this)
      in this\<lparr>total_cf := total_cf this - total_cf other,
              violations := violations this - violations other,
              objective := objective this - objective other,
              all_components := sub_components comps (all_components other)\<rparr>)"

text \<open>\<^verbatim>\<open>operator+\<close> and \<^verbatim>\<open>operator-\<close> copy the left operand and apply \<^verbatim>\<open>+=\<close>, \<^verbatim>\<open>-=\<close>.\<close>

definition cs_plus :: "'w CostStructure \<Rightarrow> 'w CostStructure \<Rightarrow> 'w CostStructure" where
  "cs_plus cs1 cs2 = (let res = cs1 in plus_eq res cs2)"

definition cs_minus :: "'w CostStructure \<Rightarrow> 'w CostStructure \<Rightarrow> 'w CostStructure" where
  "cs_minus cs1 cs2 = (let res = cs1 in minus_eq res cs2)"

text \<open>The entry of a component vector at a position, zero where the vector has ended.\<close>

definition entry0 :: "int list \<Rightarrow> nat \<Rightarrow> int" where
  "entry0 xs i = (if i < length xs then xs ! i else 0)"

subsection \<open>Comparison\<close>

text \<open>
  Modelled from the spec: the scalar helper \<^verbatim>\<open>LessThan\<close> is declared in utils/Types.hh,
  its body is not among the sources. For the integral cost type the specification reads it
  as the strict order (\<^verbatim>\<open>current_cost + mv_cost < best_cost\<close>). At type \<^verbatim>\<open>double\<close> the
  specification lets it tolerate an epsilon; there it is kept as a parameter \<open>ltw\<close>.
\<close>

definition LessThan :: "int \<Rightarrow> int \<Rightarrow> bool" where
  "LessThan value1 value2 = (value1 < value2)"

text \<open>\<^verbatim>\<open>operator<\<close> of \<^verbatim>\<open>DefaultCostStructure\<close> (the aggregated regime).\<close>

definition Default_less ::
  "('w \<Rightarrow> 'w \<Rightarrow> bool) \<Rightarrow> 'w CostStructure \<Rightarrow> 'w CostStructure \<Rightarrow> bool" where
  "Default_less ltw cs1 cs2 =
     (if is_weighted cs1 \<and> is_weighted cs2 then ltw (weighted cs1) (weighted cs2)
      else LessThan (total_cf cs1) (total_cf cs2))"

text \<open>
  \<^verbatim>\<open>operator<\<close> of \<^verbatim>\<open>HierarchicalCostStructure\<close>: the loop runs over the indices of
  \<open>cs1\<close> and reads \<open>cs2\<close> at the same index without a bound check. A read past the end of
  \<open>cs2\<close> has no defined result in C++; the model answers \<open>None\<close> there.
\<close>

function Hierarchical_less_from :: "nat \<Rightarrow> int list \<Rightarrow> int list \<Rightarrow> bool option" where
  "Hierarchical_less_from i cs1 cs2 =
     (if i < length cs1 then
        (if i < length cs2 then
           (if cs1 ! i < cs2 ! i then Some True
            else if cs1 ! i > cs2 ! i then Some False
            else Hierarchical_less_from (i + 1) cs1 cs2)
         else None)
      else Some False)"
  by pat_completeness auto
termination
  by (relation "measure (\<lambda>(i, cs1, cs2). length cs1 - i)") auto

declare Hierarchical_less_from.simps [simp del]

definition Hierarchical_less :: "'w CostStructure \<Rightarrow> 'w CostStructure \<Rightarrow> bool option" where
  "Hierarchical_less cs1 cs2 = Hierarchical_less_from 0 (all_components cs1) (all_components cs2)"

section \<open>The tabu list manager\<close>

text \<open>
  \<^verbatim>\<open>TabuListItem\<close> (TabuListItem.hh) and \<^verbatim>\<open>TabuListManager\<close> (TabuListManager.hh). The
  iteration counters are \<^verbatim>\<open>unsigned long\<close> in the source; they are read as natural numbers
  (a run does not reach the wrap-around of the counter). Costs are the integral cost type.
  The \<^verbatim>\<open>State\<close> argument that every method of the manager receives is read by none of
  them and is left out.
\<close>

record 'm TabuListItem =
  elem :: 'm
  out_iter :: nat

record 'm TabuListManager =
  min_tenure :: nat
  max_tenure :: nat
  iter :: nat
  tlist :: "'m TabuListItem list"
  current_state_cost :: int
  best_state_cost :: int



text \<open>
  \<^verbatim>\<open>PurgeList\<close>: the loop walks the list and erases every item with
  \<^verbatim>\<open>out_iter <= iter\<close>, keeping the others in their order.
\<close>

fun purge :: "nat \<Rightarrow> 'm TabuListItem list \<Rightarrow> 'm TabuListItem list" where
  "purge it [] = []"
| "purge it (p # ps) = (if out_iter p \<le> it then purge it ps else p # purge it ps)"

definition PurgeList :: "'m TabuListManager \<Rightarrow> 'm TabuListManager" where
  "PurgeList tm = tm\<lparr>tlist := purge (iter tm) (tlist tm)\<rparr>"

text \<open>\<^verbatim>\<open>UpdateIteration() { PurgeList(); iter++; }\<close>\<close>

definition UpdateIteration :: "'m TabuListManager \<Rightarrow> 'm TabuListManager" where
  "UpdateIteration tm = (let tm1 = PurgeList tm in tm1\<lparr>iter := iter tm1 + 1\<rparr>)"

text \<open>
  \<^verbatim>\<open>InsertIntoList\<close>. The tenure is the value that \<^verbatim>\<open>Random::Int(min_tenure, max_tenure)\<close>
  returned; the random source is not among the sources, so the drawn value is an argument.
\<close>

definition InsertIntoList :: "'m TabuListManager \<Rightarrow> 'm \<Rightarrow> nat \<Rightarrow> 'm TabuListManager" where
  "InsertIntoList tm mv tenure =
     (let li = \<lparr>elem = mv, out_iter = iter tm + tenure\<rparr>;
          tm1 = tm\<lparr>tlist := li # tlist tm\<rparr>
      in UpdateIteration tm1)"

definition UpdateAspirationFunction ::
  "'m TabuListManager \<Rightarrow> int \<Rightarrow> int \<Rightarrow> 'm TabuListManager" where
  "UpdateAspirationFunction tm curr_cost best_cost =
     tm\<lparr>current_state_cost := curr_cost, best_state_cost := best_cost\<rparr>"

definition InsertMove ::
  "'m TabuListManager \<Rightarrow> 'm \<Rightarrow> int \<Rightarrow> int \<Rightarrow> int \<Rightarrow> nat \<Rightarrow> 'm TabuListManager" where
  "InsertMove tm mv mv_cost curr_cost best_cost tenure =
     UpdateAspirationFunction (InsertIntoList tm mv tenure) curr_cost best_cost"

text \<open>
  \<^verbatim>\<open>ListMember\<close>: the first item whose move \<open>mv\<close> is the inverse of answers true. The pure
  virtual \<^verbatim>\<open>Inverse\<close> is a parameter.
\<close>

fun list_member_loop :: "('m \<Rightarrow> 'm \<Rightarrow> bool) \<Rightarrow> 'm \<Rightarrow> 'm TabuListItem list \<Rightarrow> bool" where
  "list_member_loop Inverse mv [] = False"
| "list_member_loop Inverse mv (p # ps) =
     (if Inverse mv (elem p) then True else list_member_loop Inverse mv ps)"

definition ListMember :: "('m \<Rightarrow> 'm \<Rightarrow> bool) \<Rightarrow> 'm TabuListManager \<Rightarrow> 'm \<Rightarrow> bool" where
  "ListMember Inverse tm mv = list_member_loop Inverse mv (tlist tm)"

definition Aspiration :: "'m TabuListManager \<Rightarrow> 'm \<Rightarrow> int \<Rightarrow> bool" where
  "Aspiration tm mv mv_cost = LessThan (current_state_cost tm + mv_cost) (best_state_cost tm)"

definition ProhibitedMove ::
  "('m \<Rightarrow> 'm \<Rightarrow> bool) \<Rightarrow> 'm TabuListManager \<Rightarrow> 'm \<Rightarrow> int \<Rightarrow> bool" where
  "ProhibitedMove Inverse tm mv mv_cost =
     (\<not> Aspiration tm mv mv_cost \<and> ListMember Inverse tm mv)"

text \<open>
  What a runner does to a manager between two queries: the plain iteration update (the
  bimodal runners call it on the list that received no move) or the insertion of a move.
\<close>

datatype 'm tabu_op = Tick | Insert 'm int int int nat

fun apply_op :: "'m TabuListManager \<Rightarrow> 'm tabu_op \<Rightarrow> 'm TabuListManager" where
  "apply_op tm Tick = UpdateIteration tm"
| "apply_op tm (Insert mv mv_cost curr_cost best_cost tenure) = InsertMove tm mv mv_cost curr_cost best_cost tenure"

fun run_ops :: "'m TabuListManager \<Rightarrow> 'm tabu_op list \<Rightarrow> 'm TabuListManager" where
  "run_ops tm [] = tm"
| "run_ops tm (x # xs) = run_ops (apply_op tm x) xs"


section \<open>Multimodal neighborhood explorers\<close>

text \<open>
  multimodalneighborhoodexplorer.hh composes \<open>N \<ge> 1\<close> base explorers over a tuple of
  \<^verbatim>\<open>ActiveMove\<close>s, reaching the element at a level by compile-time recursion over the
  tuple's tails. The model keeps one move type \<open>'m\<close> for all levels (a sum of the base move
  types), so that the tuples become lists and the level an index. The constant \<^verbatim>\<open>Input\<close>
  and the weights, which every call hands on unchanged, are taken as fixed inside the base
  explorers' functions.
\<close>

datatype error = EmptyNeighborhood | logic_error

record 'm ActiveMove =
  RawMove :: 'm
  active :: bool

text \<open>\<^verbatim>\<open>operator==\<close> of \<^verbatim>\<open>ActiveMove\<close>.\<close>

definition ActiveMove_eq :: "'m ActiveMove \<Rightarrow> 'm ActiveMove \<Rightarrow> bool" where
  "ActiveMove_eq mv1 mv2 =
     (if \<not> active mv1 \<and> \<not> active mv2 then True
      else if active mv1 \<noteq> active mv2 then False
      else RawMove mv1 = RawMove mv2)"

text \<open>
  A base \<^verbatim>\<open>NeighborhoodExplorer\<close>, by the five operations the composites call.
  \<^verbatim>\<open>FirstMove\<close> and \<^verbatim>\<open>RandomMove\<close> write the move they are handed or throw
  \<^verbatim>\<open>EmptyNeighborhood\<close> (\<open>None\<close>); \<^verbatim>\<open>NextMove\<close> advances the move it is handed or returns
  false (\<open>None\<close>, the move then left as it was). They write through a \<^verbatim>\<open>Move&\<close>, so the
  \<open>active\<close> flag of the tuple's element is out of their reach. \<^verbatim>\<open>RandomMove\<close> draws from a
  random source, whose state of type \<open>'r\<close> is threaded through.
\<close>

record ('s, 'm, 'r, 'w) NeighborhoodExplorer =
  FirstMove :: "'s \<Rightarrow> 'm option"
  NextMove :: "'s \<Rightarrow> 'm \<Rightarrow> 'm option"
  RandomMove :: "'s \<Rightarrow> 'r \<Rightarrow> 'm option \<times> 'r"
  MakeMove :: "'s \<Rightarrow> 'm \<Rightarrow> 's"
  DeltaCostFunctionComponents :: "'s \<Rightarrow> 'm \<Rightarrow> 'w CostStructure"

subsection \<open>The dispatchers\<close>

text \<open>
  \<^verbatim>\<open>TupleDispatcher::execute_at\<close> and \<^verbatim>\<open>VTupleDispatcher::execute_at\<close>: at level zero
  the head function is applied to the head move, otherwise the call goes on with the tails
  and the level decremented; the base case, a tuple of one element, throws
  \<^verbatim>\<open>std::logic_error\<close> at any other level. How the function is applied (to which state)
  is the argument \<open>call\<close>.
\<close>

fun execute_at :: "nat \<Rightarrow> ('f \<Rightarrow> 'a \<Rightarrow> 'b) \<Rightarrow> 'f list \<Rightarrow> 'a list \<Rightarrow> error + 'b" where
  "execute_at level call [f] [this_move] =
     (if level = 0 then Inr (call f this_move) else Inl logic_error)"
| "execute_at level call (f # funcs_tail) (this_move # moves_tail) =
     (if level = 0 then Inr (call f this_move)
      else execute_at (level - 1) call funcs_tail moves_tail)"
| "execute_at level call funcs moves = Inl logic_error"

text \<open>\<^verbatim>\<open>MoveDispatcher::get_first_active\<close>.\<close>

fun get_first_active :: "'m ActiveMove list \<Rightarrow> nat \<Rightarrow> error + nat" where
  "get_first_active [this_move] level =
     (if active this_move then Inr level else Inl logic_error)"
| "get_first_active (this_move # moves_tail) level =
     (if active this_move then Inr level else get_first_active moves_tail (level + 1))"
| "get_first_active [] level = Inl logic_error"

text \<open>
  The remaining \<^verbatim>\<open>MoveDispatcher\<close> functions are called by the Cartesian product's loops
  at levels inside the tuple only (the loops test \<^verbatim>\<open>cur < length\<close> and \<^verbatim>\<open>cur == -1\<close>
  before), where the recursion reaches the element; they are written with list indexing.
  \<^verbatim>\<open>copy_move_at\<close> takes both of its references from \<^verbatim>\<open>target\<close>:
  \<^verbatim>\<open>this_target = std::get<0>(target)\<close>, \<^verbatim>\<open>this_source = std::get<0>(target)\<close>.
\<close>

definition set_activity_at :: "nat \<Rightarrow> 'm ActiveMove list \<Rightarrow> bool \<Rightarrow> 'm ActiveMove list" where
  "set_activity_at level moves val = moves[level := (moves ! level)\<lparr>active := val\<rparr>]"

definition copy_move_at ::
  "nat \<Rightarrow> 'm ActiveMove list \<Rightarrow> 'm ActiveMove list \<Rightarrow> 'm ActiveMove list" where
  "copy_move_at level target source =
     (let this_source = target ! level in target[level := this_source])"

definition equal_at :: "nat \<Rightarrow> 'm ActiveMove list \<Rightarrow> 'm ActiveMove list \<Rightarrow> bool" where
  "equal_at level moves_1 moves_2 = ActiveMove_eq (moves_1 ! level) (moves_2 ! level)"

text \<open>What a base explorer's write through \<^verbatim>\<open>Move&\<close> does to the tuple's element.\<close>

definition set_move_at :: "nat \<Rightarrow> 'm ActiveMove list \<Rightarrow> 'm \<Rightarrow> 'm ActiveMove list" where
  "set_move_at level moves mv = moves[level := (moves ! level)\<lparr>RawMove := mv\<rparr>]"

text \<open>
  \<^verbatim>\<open>related_funcs\<close>: the registry of relatedness predicates. In the source it is keyed by
  the types of two consecutive moves; here by the level of the first of the two. A
  predicate on the moves alone is found before one that also reads the state.
\<close>

record ('s, 'm) related_funcs =
  RelatedFunc :: "nat \<Rightarrow> ('m \<Rightarrow> 'm \<Rightarrow> bool) option"
  RelatedInputStateFunc :: "nat \<Rightarrow> ('s \<Rightarrow> 'm \<Rightarrow> 'm \<Rightarrow> bool) option"

definition are_related ::
  "nat \<Rightarrow> 's \<Rightarrow> 'm ActiveMove list \<Rightarrow> ('s, 'm) related_funcs \<Rightarrow> bool" where
  "are_related level state moves rel =
     (let this_move = moves ! level; next_move = moves ! (level + 1)
      in case RelatedFunc rel level of
           Some r \<Rightarrow> r (RawMove this_move) (RawMove next_move)
         | None \<Rightarrow>
             (case RelatedInputStateFunc rel level of
                Some r \<Rightarrow> r state (RawMove this_move) (RawMove next_move)
              | None \<Rightarrow> True))"

subsection \<open>The set union\<close>

text \<open>\<^verbatim>\<open>SetUnionNeighborhoodExplorer::MakeMove\<close> and \<^verbatim>\<open>::DeltaCostFunctionComponents\<close>.\<close>

definition SetUnion_MakeMove ::
  "('s, 'm, 'r, 'w) NeighborhoodExplorer list \<Rightarrow> 's \<Rightarrow> 'm ActiveMove list \<Rightarrow> error + 's" where
  "SetUnion_MakeMove nhes st moves =
     (case get_first_active moves 0 of
        Inl e \<Rightarrow> Inl e
      | Inr i \<Rightarrow> execute_at i (\<lambda>f this_move. f st (RawMove this_move)) (map MakeMove nhes) moves)"

definition SetUnion_DeltaCostFunctionComponents ::
  "('s, 'm, 'r, 'w) NeighborhoodExplorer list \<Rightarrow> 's \<Rightarrow> 'm ActiveMove list
     \<Rightarrow> error + 'w CostStructure" where
  "SetUnion_DeltaCostFunctionComponents nhes st moves =
     (case get_first_active moves 0 of
        Inl e \<Rightarrow> Inl e
      | Inr i \<Rightarrow>
          execute_at i (\<lambda>f this_move. f st (RawMove this_move))
            (map DeltaCostFunctionComponents nhes) moves)"

section \<open>The simulated annealing runners\<close>

text \<open>
  The cooling state of \<^verbatim>\<open>SimulatedAnnealing\<close> (SimulatedAnnealing.hh, the version with
  \<^verbatim>\<open>CompleteMove\<close>) and of \<^verbatim>\<open>SimulatedAnnealingWithReheating\<close>: the temperature, the
  cooling rate and the four counters, which are \<^verbatim>\<open>unsigned int\<close> and wrap around at
  \<open>2\<^sup>3\<^sup>2\<close>. The temperature is a \<^verbatim>\<open>double\<close>; the only operation on it here is the
  product with the cooling rate, so its type is any type \<open>'t\<close> with a product. The two
  classes declare the same fields; one record stands for both.
\<close>

record 't SimulatedAnnealing =
  temperature :: 't
  cooling_rate :: 't
  max_neighbors_sampled :: "32 word"
  neighbors_sampled :: "32 word"
  max_neighbors_accepted :: "32 word"
  neighbors_accepted :: "32 word"

text \<open>
  \<^verbatim>\<open>SelectMove\<close>, the same in both classes: a random move is drawn and its cost computed
  (fields of the runner that play no part in the cooling), and \<^verbatim>\<open>neighbors_sampled++\<close>.
\<close>

definition SelectMove :: "'t SimulatedAnnealing \<Rightarrow> 't SimulatedAnnealing" where
  "SelectMove s = s\<lparr>neighbors_sampled := neighbors_sampled s + 1\<rparr>"

text \<open>\<^verbatim>\<open>SimulatedAnnealing::CompleteMove\<close>: the count of accepted moves and the cooling check.\<close>

definition CompleteMove :: "'t::times SimulatedAnnealing \<Rightarrow> 't SimulatedAnnealing" where
  "CompleteMove s =
     (let s = s\<lparr>neighbors_accepted := neighbors_accepted s + 1\<rparr>
      in if neighbors_sampled s = max_neighbors_sampled s
            \<or> neighbors_accepted s = max_neighbors_accepted s
         then s\<lparr>temperature := temperature s * cooling_rate s,
                neighbors_sampled := 0, neighbors_accepted := 0\<rparr>
         else s)"

text \<open>
  \<^verbatim>\<open>SimulatedAnnealingWithReheating::CompleteMove\<close> only counts; the cooling check of this
  class is in \<^verbatim>\<open>UpdateIterationCounter\<close>, after the call of the base class's method (which
  advances the runner's iteration number, not part of the cooling state).
\<close>

definition Reheating_CompleteMove :: "'t SimulatedAnnealing \<Rightarrow> 't SimulatedAnnealing" where
  "Reheating_CompleteMove s = s\<lparr>neighbors_accepted := neighbors_accepted s + 1\<rparr>"

definition Reheating_UpdateIterationCounter ::
  "'t::times SimulatedAnnealing \<Rightarrow> 't SimulatedAnnealing" where
  "Reheating_UpdateIterationCounter s =
     (if neighbors_sampled s = max_neighbors_sampled s
         \<or> neighbors_accepted s = max_neighbors_accepted s
      then s\<lparr>temperature := temperature s * cooling_rate s,
             neighbors_sampled := 0, neighbors_accepted := 0\<rparr>
      else s)"

text \<open>
  Modelled from the spec: the loop of \<^verbatim>\<open>MoveRunner\<close>, which calls these hooks, is not
  among the sources. By section 4.6 of the specification an iteration selects a move,
  tests its acceptance, commits the move only if it is accepted (the source's
  \<^verbatim>\<open>CompleteMove\<close> belongs to the commit: it is where the accepted moves are counted),
  and then does the bookkeeping of the iteration, for every iteration. The outcome of
  \<^verbatim>\<open>AcceptableMove\<close>, which reads the random source and a floating-point exponential, is
  the argument \<open>acceptable\<close>.
\<close>

definition iteration :: "bool \<Rightarrow> 't::times SimulatedAnnealing \<Rightarrow> 't SimulatedAnnealing" where
  "iteration acceptable s =
     (let s = SelectMove s in if acceptable then CompleteMove s else s)"

definition Reheating_iteration ::
  "bool \<Rightarrow> 't::times SimulatedAnnealing \<Rightarrow> 't SimulatedAnnealing" where
  "Reheating_iteration acceptable s =
     (let s = SelectMove s;
          s = (if acceptable then Reheating_CompleteMove s else s)
      in Reheating_UpdateIterationCounter s)"

section \<open>Selection of the best move\<close>

text \<open>
  \<^verbatim>\<open>ParallelNeighborhoodExplorer::SelectBest\<close> and \<^verbatim>\<open>::RandomBest\<close>
  (parallelneighborhoodexplorer.hh). \<^verbatim>\<open>tbb::parallel_for_each\<close> hands every move of the
  iterator range to the loop body; the body computes the move's cost and then, holding
  the mutex, counts the move and updates the best move. The updates are therefore made
  one after the other, in the order in which the bodies take the mutex: the list \<open>mvs\<close>
  below is the moves in that order. The cost is of the class's cost type, \<^verbatim>\<open>int\<close> by
  default.
\<close>

record 'm EvaluatedMove =
  move :: 'm
  cost :: int
  is_valid :: bool

text \<open>The variables the loop body shares: \<^verbatim>\<open>best_move\<close>, \<^verbatim>\<open>number_of_bests\<close>, \<^verbatim>\<open>explored\<close>.\<close>

record 'm selection =
  best_move :: "'m EvaluatedMove"
  number_of_bests :: nat
  explored :: nat

text \<open>
  The loop. \<^verbatim>\<open>Random::Int(0, number_of_bests)\<close> is called for a move that ties with the
  best one and for no other; the values it returns are the list \<open>draws\<close>, taken from the
  front. The program's random source does not run dry; the model answers \<open>None\<close> should
  the list do so.
\<close>

fun best_loop ::
  "('m \<Rightarrow> int \<Rightarrow> bool) \<Rightarrow> ('m \<Rightarrow> int) \<Rightarrow> 'm list \<Rightarrow> nat list \<Rightarrow> 'm selection
     \<Rightarrow> 'm selection option" where
  "best_loop AcceptMove delta [] draws s = Some s"
| "best_loop AcceptMove delta (m # ms) draws s =
     (let mv = \<lparr>move = m, cost = delta m, is_valid = True\<rparr>;
          s = s\<lparr>explored := explored s + 1\<rparr>
      in if AcceptMove (move mv) (cost mv) then
           (if number_of_bests s = 0 then
              best_loop AcceptMove delta ms draws (s\<lparr>best_move := mv, number_of_bests := 1\<rparr>)
            else if cost mv < cost (best_move s) then
              best_loop AcceptMove delta ms draws (s\<lparr>best_move := mv, number_of_bests := 1\<rparr>)
            else if cost mv = cost (best_move s) then
              (case draws of
                 [] \<Rightarrow> None
               | r # draws' \<Rightarrow>
                   best_loop AcceptMove delta ms draws'
                     (s\<lparr>best_move := (if r = 0 then mv else best_move s),
                        number_of_bests := number_of_bests s + 1\<rparr>))
            else best_loop AcceptMove delta ms draws s)
         else best_loop AcceptMove delta ms draws s)"

text \<open>
  \<^verbatim>\<open>SelectBest\<close> runs the loop over the moves of the full enumeration, \<^verbatim>\<open>RandomBest\<close>
  over the sampled moves; the two loop bodies are the same text. The default-constructed
  \<^verbatim>\<open>best_move\<close> and the constant \<^verbatim>\<open>EvaluatedMove::empty\<close> are the arguments \<open>dflt\<close> and
  \<open>empty_move\<close>. The result is the returned move and the value left in \<^verbatim>\<open>explored\<close>.
\<close>

definition SelectBest ::
  "('m \<Rightarrow> int) \<Rightarrow> ('m \<Rightarrow> int \<Rightarrow> bool) \<Rightarrow> 'm EvaluatedMove \<Rightarrow> 'm EvaluatedMove \<Rightarrow> 'm list
     \<Rightarrow> nat list \<Rightarrow> ('m EvaluatedMove \<times> nat) option" where
  "SelectBest delta AcceptMove dflt empty_move mvs draws =
     (case best_loop AcceptMove delta mvs draws
             \<lparr>best_move = dflt, number_of_bests = 0, explored = 0\<rparr> of
        None \<Rightarrow> None
      | Some s \<Rightarrow> Some (if number_of_bests s = 0 then empty_move else best_move s, explored s))"

definition RandomBest ::
  "('m \<Rightarrow> int) \<Rightarrow> ('m \<Rightarrow> int \<Rightarrow> bool) \<Rightarrow> 'm EvaluatedMove \<Rightarrow> 'm EvaluatedMove \<Rightarrow> 'm list
     \<Rightarrow> nat list \<Rightarrow> ('m EvaluatedMove \<times> nat) option" where
  "RandomBest delta AcceptMove dflt empty_move samples draws =
     (case best_loop AcceptMove delta samples draws
             \<lparr>best_move = dflt, number_of_bests = 0, explored = 0\<rparr> of
        None \<Rightarrow> None
      | Some s \<Rightarrow> Some (if number_of_bests s = 0 then empty_move else best_move s, explored s))"

text \<open>
  The best cost and the number of bests after a run depend on the moves only, not on the
  draws: \<open>final_best\<close> follows them through the loop, from the cost \<open>c\<close> of the best move
  and the number \<open>nb\<close> of bests so far.
\<close>

fun final_best ::
  "('m \<Rightarrow> int \<Rightarrow> bool) \<Rightarrow> ('m \<Rightarrow> int) \<Rightarrow> 'm list \<Rightarrow> int \<Rightarrow> nat \<Rightarrow> int \<times> nat" where
  "final_best AcceptMove delta [] c nb = (c, nb)"
| "final_best AcceptMove delta (m # ms) c nb =
     (if AcceptMove m (delta m) then
        (if nb = 0 \<or> delta m < c then final_best AcceptMove delta ms (delta m) 1
         else if delta m = c then final_best AcceptMove delta ms c (nb + 1)
         else final_best AcceptMove delta ms c nb)
      else final_best AcceptMove delta ms c nb)"

text \<open>
  The outcomes of the random source: every list of values that the calls of
  \<^verbatim>\<open>Random::Int(0, number_of_bests)\<close> of one run can return, a call with \<open>nb\<close> bests
  returning one of \<open>0, \<dots>, nb\<close>. With the calls independent and each uniform on its range,
  all these lists are equally likely, and the probability of an event is the share of the
  lists in it.
\<close>

fun draw_space ::
  "('m \<Rightarrow> int \<Rightarrow> bool) \<Rightarrow> ('m \<Rightarrow> int) \<Rightarrow> 'm list \<Rightarrow> int \<Rightarrow> nat \<Rightarrow> nat list list" where
  "draw_space AcceptMove delta [] c nb = [[]]"
| "draw_space AcceptMove delta (m # ms) c nb =
     (if AcceptMove m (delta m) then
        (if nb = 0 \<or> delta m < c then draw_space AcceptMove delta ms (delta m) 1
         else if delta m = c then
           concat (map (\<lambda>r. map (\<lambda>rs. r # rs) (draw_space AcceptMove delta ms c (nb + 1)))
                       [0..<nb + 1])
         else draw_space AcceptMove delta ms c nb)
      else draw_space AcceptMove delta ms c nb)"

text \<open>
  The number of outcomes of a run over \<open>mvs\<close> in which the move \<open>m\<close> is returned, and the
  number of all outcomes.
\<close>

definition returned :: "('m EvaluatedMove \<times> nat) option \<Rightarrow> 'm \<Rightarrow> bool" where
  "returned res m = (case res of None \<Rightarrow> False | Some (mv, n) \<Rightarrow> move mv = m)"

definition outcomes_returning ::
  "('m \<Rightarrow> int) \<Rightarrow> ('m \<Rightarrow> int \<Rightarrow> bool) \<Rightarrow> 'm EvaluatedMove \<Rightarrow> 'm EvaluatedMove \<Rightarrow> 'm list
     \<Rightarrow> 'm \<Rightarrow> nat" where
  "outcomes_returning delta AcceptMove dflt empty_move mvs m =
     length (filter (\<lambda>draws. returned (SelectBest delta AcceptMove dflt empty_move mvs draws) m)
               (draw_space AcceptMove delta mvs (cost dflt) 0))"

definition outcomes :: "('m \<Rightarrow> int) \<Rightarrow> ('m \<Rightarrow> int \<Rightarrow> bool) \<Rightarrow> 'm EvaluatedMove \<Rightarrow> 'm list \<Rightarrow> nat" where
  "outcomes delta AcceptMove dflt mvs = length (draw_space AcceptMove delta mvs (cost dflt) 0)"

text \<open>The same count for the loop started in any state of the shared variables.\<close>

definition loop_outcomes_returning ::
  "('m \<Rightarrow> int \<Rightarrow> bool) \<Rightarrow> ('m \<Rightarrow> int) \<Rightarrow> 'm list \<Rightarrow> 'm selection \<Rightarrow> 'm \<Rightarrow> nat" where
  "loop_outcomes_returning AcceptMove delta ms s m =
     length (filter (\<lambda>draws. case best_loop AcceptMove delta ms draws s of
                                None \<Rightarrow> False
                              | Some s' \<Rightarrow> move (best_move s') = m)
               (draw_space AcceptMove delta ms (cost (best_move s)) (number_of_bests s)))"

section \<open>The Cartesian product\<close>

text \<open>
  \<^verbatim>\<open>CartesianProductNeighborhoodExplorer\<close>. Its \<^verbatim>\<open>FirstMove\<close> and \<^verbatim>\<open>RandomMove\<close> are
  loops over the level \<^verbatim>\<open>cur\<close> (a \<^verbatim>\<open>long\<close>, which reaches \<open>-1\<close>) with inner loops that
  search a move related to the previous level's. The base explorers are arbitrary, so
  the loops need not end: every loop of the model takes a number of steps it may still
  make and answers \<open>None\<close> when they are used up. An inner loop ends in one of three ways.
\<close>

datatype 'a search = Found 'a | Exhausted 'a | Threw 'a

subsection \<open>\<^verbatim>\<open>FirstMove\<close>\<close>

text \<open>
  The \<^verbatim>\<open>while\<close> loop of the forward branch: as long as the move at \<^verbatim>\<open>cur\<close> is not
  related to the one before, take the base's next move; when there is none, the level is
  exhausted.
\<close>

fun FirstMove_while ::
  "nat \<Rightarrow> ('s, 'm, 'r, 'w) NeighborhoodExplorer list \<Rightarrow> ('s, 'm) related_funcs \<Rightarrow> nat
     \<Rightarrow> 's list \<Rightarrow> 'm ActiveMove list \<Rightarrow> 'm ActiveMove list search option" where
  "FirstMove_while 0 nhes rel cur states moves = None"
| "FirstMove_while (Suc n) nhes rel cur states moves =
     (if 0 < cur \<and> \<not> are_related (cur - 1) (states ! (cur - 1)) moves rel then
        (case NextMove (nhes ! cur) (states ! cur) (RawMove (moves ! cur)) of
           None \<Rightarrow> Some (Exhausted moves)
         | Some mv \<Rightarrow> FirstMove_while n nhes rel cur states (set_move_at cur moves mv))
      else Some (Found moves))"

text \<open>The \<^verbatim>\<open>do \<dots> while\<close> loop of the backtracking branch.\<close>

fun FirstMove_do_while ::
  "nat \<Rightarrow> ('s, 'm, 'r, 'w) NeighborhoodExplorer list \<Rightarrow> ('s, 'm) related_funcs \<Rightarrow> nat
     \<Rightarrow> 's list \<Rightarrow> 'm ActiveMove list \<Rightarrow> 'm ActiveMove list search option" where
  "FirstMove_do_while 0 nhes rel cur states moves = None"
| "FirstMove_do_while (Suc n) nhes rel cur states moves =
     (case NextMove (nhes ! cur) (states ! cur) (RawMove (moves ! cur)) of
        None \<Rightarrow> Some (Exhausted moves)
      | Some mv \<Rightarrow>
          (let moves = set_move_at cur moves mv
           in if 0 < cur \<and> \<not> are_related (cur - 1) (states ! (cur - 1)) moves rel
              then FirstMove_do_while n nhes rel cur states moves
              else Some (Found moves)))"

text \<open>
  The outer loop, from the label \<^verbatim>\<open>loop:\<close>. Each \<^verbatim>\<open>goto loop\<close> is a recursive call.
  The base's \<^verbatim>\<open>FirstMove\<close> is called on the state \<^verbatim>\<open>st\<close> that the composite was
  handed, its \<^verbatim>\<open>NextMove\<close> and \<^verbatim>\<open>MakeMove\<close> on \<^verbatim>\<open>states[cur]\<close>. The result is the
  tuple of moves, or \<^verbatim>\<open>EmptyNeighborhood\<close>.
\<close>

fun FirstMove_loop ::
  "nat \<Rightarrow> ('s, 'm, 'r, 'w) NeighborhoodExplorer list \<Rightarrow> ('s, 'm) related_funcs \<Rightarrow> 's
     \<Rightarrow> int \<Rightarrow> bool \<Rightarrow> 'm ActiveMove list \<Rightarrow> 's list
     \<Rightarrow> (error + 'm ActiveMove list) option" where
  "FirstMove_loop 0 nhes rel st cur backtracking moves states = None"
| "FirstMove_loop (Suc n) nhes rel st cur backtracking moves states =
     (if cur < int (length nhes) then
        (if cur = - 1 then Some (Inl EmptyNeighborhood)
         else
           (let c = nat cur;
                states = states[c := (if 0 < cur then states ! (c - 1) else st)]
            in if \<not> backtracking then
                 (case FirstMove (nhes ! c) st of
                    None \<Rightarrow>
                      FirstMove_loop n nhes rel st (cur - 1) True
                        (set_activity_at c moves False) states
                  | Some mv \<Rightarrow>
                      (case FirstMove_while n nhes rel c states (set_move_at c moves mv) of
                         None \<Rightarrow> None
                       | Some (Found moves) \<Rightarrow>
                           FirstMove_loop n nhes rel st (cur + 1) False
                             (set_activity_at c moves True)
                             (states[c := MakeMove (nhes ! c) (states ! c) (RawMove (moves ! c))])
                       | Some (Exhausted moves) \<Rightarrow>
                           FirstMove_loop n nhes rel st (cur - 1) True
                             (set_activity_at c moves False) states
                       | Some (Threw moves) \<Rightarrow>
                           FirstMove_loop n nhes rel st (cur - 1) True
                             (set_activity_at c moves False) states))
               else
                 (case FirstMove_do_while n nhes rel c states moves of
                    None \<Rightarrow> None
                  | Some (Found moves) \<Rightarrow>
                      FirstMove_loop n nhes rel st (cur + 1) False
                        (set_activity_at c moves True)
                        (states[c := MakeMove (nhes ! c) (states ! c) (RawMove (moves ! c))])
                  | Some (Exhausted moves) \<Rightarrow>
                      FirstMove_loop n nhes rel st (cur - 1) True
                        (set_activity_at c moves False) states
                  | Some (Threw moves) \<Rightarrow> Some (Inl EmptyNeighborhood))))
      else Some (Inr moves))"

definition Cartesian_FirstMove ::
  "nat \<Rightarrow> ('s, 'm, 'r, 'w) NeighborhoodExplorer list \<Rightarrow> ('s, 'm) related_funcs \<Rightarrow> 's
     \<Rightarrow> 'm ActiveMove list \<Rightarrow> (error + 'm ActiveMove list) option" where
  "Cartesian_FirstMove n nhes rel st moves =
     FirstMove_loop n nhes rel st 0 False moves (replicate (length nhes) st)"

subsection \<open>\<^verbatim>\<open>RandomMove\<close>\<close>

text \<open>
  The step of the inner loops: the base's next move and, when there is none, its first
  move on \<^verbatim>\<open>st\<close>, which may throw.
\<close>

definition next_or_first ::
  "('s, 'm, 'r, 'w) NeighborhoodExplorer \<Rightarrow> 's \<Rightarrow> 's \<Rightarrow> 'm \<Rightarrow> 'm option" where
  "next_or_first ne state_cur st mv =
     (case NextMove ne state_cur mv of
        Some mv' \<Rightarrow> Some mv'
      | None \<Rightarrow> FirstMove ne st)"

fun RandomMove_while ::
  "nat \<Rightarrow> ('s, 'm, 'r, 'w) NeighborhoodExplorer list \<Rightarrow> ('s, 'm) related_funcs \<Rightarrow> 's \<Rightarrow> nat
     \<Rightarrow> 's list \<Rightarrow> 'm ActiveMove list \<Rightarrow> 'm ActiveMove list
     \<Rightarrow> 'm ActiveMove list search option" where
  "RandomMove_while 0 nhes rel st cur states initial_moves moves = None"
| "RandomMove_while (Suc n) nhes rel st cur states initial_moves moves =
     (if 0 < cur \<and> \<not> are_related (cur - 1) (states ! (cur - 1)) moves rel then
        (case next_or_first (nhes ! cur) (states ! cur) st (RawMove (moves ! cur)) of
           None \<Rightarrow> Some (Threw moves)
         | Some mv \<Rightarrow>
             (let moves = set_move_at cur moves mv
              in if equal_at cur moves initial_moves then Some (Exhausted moves)
                 else RandomMove_while n nhes rel st cur states initial_moves moves))
      else Some (Found moves))"

fun RandomMove_do_while ::
  "nat \<Rightarrow> ('s, 'm, 'r, 'w) NeighborhoodExplorer list \<Rightarrow> ('s, 'm) related_funcs \<Rightarrow> 's \<Rightarrow> nat
     \<Rightarrow> 's list \<Rightarrow> 'm ActiveMove list \<Rightarrow> 'm ActiveMove list
     \<Rightarrow> 'm ActiveMove list search option" where
  "RandomMove_do_while 0 nhes rel st cur states initial_moves moves = None"
| "RandomMove_do_while (Suc n) nhes rel st cur states initial_moves moves =
     (case next_or_first (nhes ! cur) (states ! cur) st (RawMove (moves ! cur)) of
        None \<Rightarrow> Some (Threw moves)
      | Some mv \<Rightarrow>
          (let moves = set_move_at cur moves mv
           in if equal_at cur moves initial_moves then Some (Exhausted moves)
              else if 0 < cur \<and> \<not> are_related (cur - 1) (states ! (cur - 1)) moves rel
              then RandomMove_do_while n nhes rel st cur states initial_moves moves
              else Some (Found moves)))"

text \<open>
  The outer loop. In the forward branch everything is inside the \<^verbatim>\<open>try\<close> block, whose
  handler backtracks; in the backtracking branch an \<^verbatim>\<open>EmptyNeighborhood\<close> of the base
  leaves \<^verbatim>\<open>RandomMove\<close>. The random source is threaded through and returned.
\<close>

fun RandomMove_loop ::
  "nat \<Rightarrow> ('s, 'm, 'r, 'w) NeighborhoodExplorer list \<Rightarrow> ('s, 'm) related_funcs \<Rightarrow> 's
     \<Rightarrow> int \<Rightarrow> bool \<Rightarrow> 'm ActiveMove list \<Rightarrow> 's list \<Rightarrow> 'm ActiveMove list \<Rightarrow> bool list \<Rightarrow> 'r
     \<Rightarrow> ((error + 'm ActiveMove list) \<times> 'r) option" where
  "RandomMove_loop 0 nhes rel st cur backtracking moves states initial_moves initial_set rng =
     None"
| "RandomMove_loop (Suc n) nhes rel st cur backtracking moves states initial_moves initial_set
       rng =
     (if cur < int (length nhes) then
        (if cur = - 1 then Some (Inl EmptyNeighborhood, rng)
         else
           (let c = nat cur;
                states = states[c := (if 0 < cur then states ! (c - 1) else st)]
            in if \<not> backtracking then
                 (case RandomMove (nhes ! c) (states ! c) rng of
                    (None, rng) \<Rightarrow>
                      RandomMove_loop n nhes rel st (cur - 1) True
                        (set_activity_at c moves False) states initial_moves initial_set rng
                  | (Some mv, rng) \<Rightarrow>
                      (let moves = set_move_at c moves mv;
                           initial_moves =
                             (if \<not> initial_set ! c then copy_move_at c initial_moves moves
                              else initial_moves);
                           initial_set =
                             (if \<not> initial_set ! c then initial_set[c := True]
                              else initial_set)
                       in case RandomMove_while n nhes rel st c states initial_moves moves of
                            None \<Rightarrow> None
                          | Some (Found moves) \<Rightarrow>
                              RandomMove_loop n nhes rel st (cur + 1) False
                                (set_activity_at c moves True)
                                (states[c := MakeMove (nhes ! c) (states ! c)
                                                (RawMove (moves ! c))])
                                initial_moves initial_set rng
                          | Some (Exhausted moves) \<Rightarrow>
                              RandomMove_loop n nhes rel st (cur - 1) True
                                (set_activity_at c moves False) states
                                initial_moves initial_set rng
                          | Some (Threw moves) \<Rightarrow>
                              RandomMove_loop n nhes rel st (cur - 1) True
                                (set_activity_at c moves False) states
                                initial_moves initial_set rng))
               else
                 (case RandomMove_do_while n nhes rel st c states initial_moves moves of
                    None \<Rightarrow> None
                  | Some (Found moves) \<Rightarrow>
                      RandomMove_loop n nhes rel st (cur + 1) False
                        (set_activity_at c moves True)
                        (states[c := MakeMove (nhes ! c) (states ! c) (RawMove (moves ! c))])
                        initial_moves initial_set rng
                  | Some (Exhausted moves) \<Rightarrow>
                      RandomMove_loop n nhes rel st (cur - 1) True
                        (set_activity_at c moves False) states initial_moves initial_set rng
                  | Some (Threw moves) \<Rightarrow> Some (Inl EmptyNeighborhood, rng))))
      else Some (Inr moves, rng))"

text \<open>
  \<^verbatim>\<open>RandomMove\<close> starts the loop with \<^verbatim>\<open>initial_moves\<close> a value-initialised tuple (every
  element inactive, its move the default-constructed one, the argument \<open>dflt\<close>) and no
  level marked as set.
\<close>

definition Cartesian_RandomMove ::
  "nat \<Rightarrow> ('s, 'm, 'r, 'w) NeighborhoodExplorer list \<Rightarrow> ('s, 'm) related_funcs \<Rightarrow> 'm \<Rightarrow> 's
     \<Rightarrow> 'm ActiveMove list \<Rightarrow> 'r \<Rightarrow> ((error + 'm ActiveMove list) \<times> 'r) option" where
  "Cartesian_RandomMove n nhes rel dflt st moves rng =
     RandomMove_loop n nhes rel st 0 False moves (replicate (length nhes) st)
       (replicate (length nhes) \<lparr>RawMove = dflt, active = False\<rparr>)
       (replicate (length nhes) False) rng"

subsection \<open>\<^verbatim>\<open>DeltaCostFunctionComponents\<close>\<close>

text \<open>
  One pass of the \<^verbatim>\<open>for\<close> loop: the state of level \<open>i\<close> is reset to the state the
  previous level has left, base \<open>i\<close>'s delta cost on it is added to the result, and base
  \<open>i\<close>'s move is applied to it.
\<close>

definition delta_step ::
  "('s, 'm, 'r, 'w) NeighborhoodExplorer list \<Rightarrow> 's \<Rightarrow> 'm ActiveMove list
     \<Rightarrow> 'w CostStructure \<times> 's list \<Rightarrow> nat \<Rightarrow> 'w CostStructure \<times> 's list" where
  "delta_step nhes st moves acc i =
     (let result = fst acc; states = snd acc;
          states = states[i := (if 0 < i then states ! (i - 1) else st)];
          result = plus_eq result
                     (DeltaCostFunctionComponents (nhes ! i) (states ! i) (RawMove (moves ! i)));
          states = states[i := MakeMove (nhes ! i) (states ! i) (RawMove (moves ! i))]
      in (result, states))"

definition Cartesian_DeltaCostFunctionComponents ::
  "('s, 'm, 'r, 'w::zero) NeighborhoodExplorer list \<Rightarrow> 's \<Rightarrow> 'm ActiveMove list
     \<Rightarrow> 'w CostStructure" where
  "Cartesian_DeltaCostFunctionComponents nhes st moves =
     fst (foldl (delta_step nhes st moves) (CostStructure0, replicate (length nhes) st)
            [0..<length nhes])"

subsection \<open>What the chain property speaks of\<close>

text \<open>
  The intermediate state \<open>state_at k\<close>: the input state with the moves of the levels
  \<open>0, \<dots>, k - 1\<close> applied, each by its base.
\<close>

definition state_at ::
  "('s, 'm, 'r, 'w) NeighborhoodExplorer list \<Rightarrow> 's \<Rightarrow> 'm ActiveMove list \<Rightarrow> nat \<Rightarrow> 's" where
  "state_at nhes st moves k =
     foldl (\<lambda>s j. MakeMove (nhes ! j) s (RawMove (moves ! j))) st [0..<k]"

text \<open>
  A chain is related when every two consecutive moves pass the check the loops make: the
  registered predicate of their level, handed the state in which the first of the two
  has been applied.
\<close>

definition chain_related ::
  "('s, 'm, 'r, 'w) NeighborhoodExplorer list \<Rightarrow> ('s, 'm) related_funcs \<Rightarrow> 's
     \<Rightarrow> 'm ActiveMove list \<Rightarrow> bool" where
  "chain_related nhes rel st moves =
     (\<forall>i. i + 1 < length nhes \<longrightarrow> are_related i (state_at nhes st moves (i + 1)) moves rel)"

text \<open>The sum of the bases' delta costs along the chain, each on its intermediate state.\<close>

definition delta_sum ::
  "('s, 'm, 'r, 'w::zero) NeighborhoodExplorer list \<Rightarrow> 's \<Rightarrow> 'm ActiveMove list
     \<Rightarrow> 'w CostStructure" where
  "delta_sum nhes st moves =
     foldl cs_plus CostStructure0
       (map (\<lambda>i. DeltaCostFunctionComponents (nhes ! i) (state_at nhes st moves i)
                   (RawMove (moves ! i)))
          [0..<length nhes])"

text \<open>
  What the outer loops keep true when they are at level \<open>c\<close>: the levels below \<open>c\<close> are
  done, that is, the state of each is the intermediate state after its move, and each
  move is related to the one before.
\<close>

definition kick_inv ::
  "('s, 'm, 'r, 'w) NeighborhoodExplorer list \<Rightarrow> ('s, 'm) related_funcs \<Rightarrow> 's \<Rightarrow> nat
     \<Rightarrow> 'm ActiveMove list \<Rightarrow> 's list \<Rightarrow> bool" where
  "kick_inv nhes rel st c moves states =
     (length moves = length nhes \<and> length states = length nhes \<and> c \<le> length nhes
      \<and> (\<forall>i<c. states ! i = state_at nhes st moves (i + 1))
      \<and> (\<forall>i. i + 1 < c \<longrightarrow> are_related i (states ! i) moves rel))"

text \<open>Two tuples that differ at most in the element of level \<open>c\<close>.\<close>

definition same_but :: "nat \<Rightarrow> 'a list \<Rightarrow> 'a list \<Rightarrow> bool" where
  "same_but c xs ys = (length ys = length xs \<and> (\<forall>j. j \<noteq> c \<longrightarrow> ys ! j = xs ! j))"

text \<open>
  What an inner loop at level \<open>c\<close> hands back: the tuple it was given, changed at most at
  level \<open>c\<close>; and when it has found a move, one that is related to the move before.
\<close>

definition search_ok ::
  "('s, 'm) related_funcs \<Rightarrow> nat \<Rightarrow> 's list \<Rightarrow> 'm ActiveMove list
     \<Rightarrow> 'm ActiveMove list search \<Rightarrow> bool" where
  "search_ok rel c states moves r =
     (case r of
        Found ms \<Rightarrow>
          same_but c moves ms \<and> (0 < c \<longrightarrow> are_related (c - 1) (states ! (c - 1)) ms rel)
      | Exhausted ms \<Rightarrow> same_but c moves ms
      | Threw ms \<Rightarrow> same_but c moves ms)"

section \<open>Example inputs\<close>

text \<open>
  Two bases over an integer state: the first adds the move to the state, the second
  subtracts it; the delta cost is the move itself, respectively its negative, as total.
  With the second component active, the composite subtracts.
\<close>

definition add_explorer :: "(int, int, unit, unit) NeighborhoodExplorer" where
  "add_explorer =
     \<lparr>FirstMove = (\<lambda>st. Some 1), NextMove = (\<lambda>st mv. if mv < 3 then Some (mv + 1) else None),
      RandomMove = (\<lambda>st r. (Some 2, r)), MakeMove = (\<lambda>st mv. st + mv),
      DeltaCostFunctionComponents =
        (\<lambda>st mv. \<lparr>total_cf = mv, violations = 0, objective = mv, all_components = [mv],
                   weighted = (), is_weighted = False\<rparr>)\<rparr>"

definition sub_explorer :: "(int, int, unit, unit) NeighborhoodExplorer" where
  "sub_explorer =
     \<lparr>FirstMove = (\<lambda>st. Some 1), NextMove = (\<lambda>st mv. if mv < 3 then Some (mv + 1) else None),
      RandomMove = (\<lambda>st r. (Some 2, r)), MakeMove = (\<lambda>st mv. st - mv),
      DeltaCostFunctionComponents =
        (\<lambda>st mv. \<lparr>total_cf = - mv, violations = 0, objective = - mv, all_components = [- mv],
                   weighted = (), is_weighted = False\<rparr>)\<rparr>"

text \<open>
  Four moves, all accepted, the third of cost seven and the others of cost five: three
  moves tie at the minimum.
\<close>

definition tie_delta :: "nat \<Rightarrow> int" where
  "tie_delta m = (if m = 3 then 7 else 5)"

definition accept_all :: "nat \<Rightarrow> int \<Rightarrow> bool" where
  "accept_all m c = True"

definition no_move :: "nat EvaluatedMove" where
  "no_move = \<lparr>move = 0, cost = 0, is_valid = False\<rparr>"

text \<open>
  The scenario of the specification for the Cartesian product: a state of three bits and
  a neighborhood that flips one of them, twice; two moves are related when they flip
  different bits. The cost is the number of bits set. The random source is a number whose
  digits to the base three are the draws.
\<close>

definition flip_explorer :: "(bool list, nat, nat, real) NeighborhoodExplorer" where
  "flip_explorer =
     \<lparr>FirstMove = (\<lambda>st. Some 0),
      NextMove = (\<lambda>st mv. if mv < 2 then Some (mv + 1) else None),
      RandomMove = (\<lambda>st g. (Some (g mod 3), g div 3)),
      MakeMove = (\<lambda>st mv. st[mv := \<not> st ! mv]),
      DeltaCostFunctionComponents =
        (\<lambda>st mv. \<lparr>total_cf = (if st ! mv then - 1 else 1), violations = 0,
                   objective = (if st ! mv then - 1 else 1),
                   all_components = [if st ! mv then - 1 else 1],
                   weighted = 0, is_weighted = False\<rparr>)\<rparr>"

definition different_bits :: "(bool list, nat) related_funcs" where
  "different_bits =
     \<lparr>RelatedFunc = (\<lambda>level. Some (\<lambda>m1 m2. m1 \<noteq> m2)),
      RelatedInputStateFunc = (\<lambda>level. None)\<rparr>"

text \<open>
  A neighborhood with the single move \<open>0\<close>, which leaves the state as it is, twice; no
  two moves are related, so that the product is empty.
\<close>

definition single_explorer :: "(nat, nat, unit, real) NeighborhoodExplorer" where
  "single_explorer =
     \<lparr>FirstMove = (\<lambda>st. Some 0),
      NextMove = (\<lambda>st mv. None),
      RandomMove = (\<lambda>st g. (Some 0, g)),
      MakeMove = (\<lambda>st mv. st),
      DeltaCostFunctionComponents = (\<lambda>st mv. CostStructure0)\<rparr>"

definition never_related :: "(nat, nat) related_funcs" where
  "never_related =
     \<lparr>RelatedFunc = (\<lambda>level. Some (\<lambda>m1 m2. False)),
      RelatedInputStateFunc = (\<lambda>level. None)\<rparr>"

section \<open>Properties of the cost structures\<close>

lemma length_add_components [simp]: "length (add_components xs ys) = length xs"
proof -
  have "length (foldl (\<lambda>c i. c[i := c ! i + ys ! i]) xs is) = length xs" for "is"
    by (induction "is" arbitrary: xs) auto
  then show ?thesis by (simp add: add_components_def)
qed

lemma length_sub_components [simp]: "length (sub_components xs ys) = length xs"
proof -
  have "length (foldl (\<lambda>c i. c[i := c ! i - ys ! i]) xs is) = length xs" for "is"
    by (induction "is" arbitrary: xs) auto
  then show ?thesis by (simp add: sub_components_def)
qed

lemma foldl_add_nth:
  "n \<le> length xs \<Longrightarrow>
   foldl (\<lambda>c i. c[i := c ! i + ys ! i]) xs [0..<n] ! j =
     (if j < n then xs ! j + ys ! j else xs ! j)"
proof (induction n)
  case 0
  then show ?case by simp
next
  case (Suc n)
  have len: "length (foldl (\<lambda>c i. c[i := c ! i + ys ! i]) xs is) = length xs" for "is"
    by (induction "is" arbitrary: xs) auto
  from Suc show ?case
    by (auto simp: len nth_list_update less_Suc_eq)
qed

lemma foldl_sub_nth:
  "n \<le> length xs \<Longrightarrow>
   foldl (\<lambda>c i. c[i := c ! i - ys ! i]) xs [0..<n] ! j =
     (if j < n then xs ! j - ys ! j else xs ! j)"
proof (induction n)
  case 0
  then show ?case by simp
next
  case (Suc n)
  have len: "length (foldl (\<lambda>c i. c[i := c ! i - ys ! i]) xs is) = length xs" for "is"
    by (induction "is" arbitrary: xs) auto
  from Suc show ?case
    by (auto simp: len nth_list_update less_Suc_eq)
qed

lemma add_components_nth:
  "length ys \<le> length xs \<Longrightarrow>
   add_components xs ys ! j = (if j < length ys then xs ! j + ys ! j else xs ! j)"
  by (simp add: add_components_def foldl_add_nth)

lemma sub_components_nth:
  "length ys \<le> length xs \<Longrightarrow>
   sub_components xs ys ! j = (if j < length ys then xs ! j - ys ! j else xs ! j)"
  by (simp add: sub_components_def foldl_sub_nth)

lemma length_resize [simp]: "length (resize xs n) = n"
  by (simp add: resize_def)

lemma resize_nth: "j < n \<Longrightarrow> resize xs n ! j = entry0 xs j"
  by (auto simp: resize_def entry0_def nth_append)

lemma length_plus_eq:
  "length (all_components (plus_eq a b)) =
     max (length (all_components a)) (length (all_components b))"
  by (simp add: plus_eq_def Let_def)

lemma plus_eq_nth:
  assumes "j < max (length (all_components a)) (length (all_components b))"
  shows "all_components (plus_eq a b) ! j =
           entry0 (all_components a) j + entry0 (all_components b) j"
proof (cases "length (all_components a) < length (all_components b)")
  case True
  then show ?thesis
    using assms by (simp add: plus_eq_def Let_def add_components_nth resize_nth) (simp add: entry0_def)
next
  case False
  then show ?thesis
    using assms by (simp add: plus_eq_def Let_def add_components_nth) (simp add: entry0_def)
qed

lemma sub_add_components:
  assumes "length ys \<le> length xs"
  shows "sub_components (add_components xs ys) ys = xs"
proof (rule nth_equalityI)
  show "length (sub_components (add_components xs ys) ys) = length xs" by simp
next
  fix j
  assume "j < length (sub_components (add_components xs ys) ys)"
  then show "sub_components (add_components xs ys) ys ! j = xs ! j"
    using assms by (simp add: sub_components_nth add_components_nth)
qed

lemma minus_plus_cancel:
  assumes "length (all_components b) \<le> length (all_components a)"
  shows "cs_minus (cs_plus a b) b = a"
  using assms by (simp add: cs_minus_def cs_plus_def minus_eq_def plus_eq_def Let_def sub_add_components)

text \<open>
  C8. Addition is pointwise with zero extension: the sum has as many components as the
  longer operand, each the sum of the operands' entries (zero past an operand's end), and
  totals, violations and objective add; the two operators \<^verbatim>\<open>+\<close> and \<^verbatim>\<open>+=\<close> agree. For
  operands with component vectors of equal length, \<open>(a + b) - b\<close> is \<open>a\<close>, as records.
\<close>

theorem C8_addition_pointwise_and_cancel:
  "cs_plus a b = plus_eq a b
   \<and> total_cf (cs_plus a b) = total_cf a + total_cf b
   \<and> violations (cs_plus a b) = violations a + violations b
   \<and> objective (cs_plus a b) = objective a + objective b
   \<and> length (all_components (cs_plus a b)) =
       max (length (all_components a)) (length (all_components b))
   \<and> (\<forall>j < max (length (all_components a)) (length (all_components b)).
        all_components (cs_plus a b) ! j =
          entry0 (all_components a) j + entry0 (all_components b) j)
   \<and> (length (all_components a) = length (all_components b) \<longrightarrow>
        cs_minus (cs_plus a b) b = a)"
proof -
  have "cs_plus a b = plus_eq a b" by (simp add: cs_plus_def)
  moreover have "total_cf (plus_eq a b) = total_cf a + total_cf b"
    and "violations (plus_eq a b) = violations a + violations b"
    and "objective (plus_eq a b) = objective a + objective b"
    by (simp_all add: plus_eq_def Let_def)
  moreover note length_plus_eq [of a b] plus_eq_nth [of _ a b] minus_plus_cancel [of b a]
  ultimately show ?thesis by simp
qed

theorem C8_witness:
  "cs_minus
     (cs_plus \<lparr>total_cf = 1010, violations = 1, objective = 10, all_components = [1, 10],
               weighted = (), is_weighted = False\<rparr>
              \<lparr>total_cf = 2005, violations = 2, objective = 5, all_components = [2, 5],
               weighted = (), is_weighted = False\<rparr>)
     \<lparr>total_cf = 2005, violations = 2, objective = 5, all_components = [2, 5],
      weighted = (), is_weighted = False\<rparr>
   = \<lparr>total_cf = 1010, violations = 1, objective = 10, all_components = [1, 10],
      weighted = (), is_weighted = False\<rparr>"
proof -
  let ?a = "\<lparr>total_cf = 1010, violations = 1, objective = 10, all_components = [1, 10],
            weighted = (), is_weighted = False\<rparr>"
  let ?b = "\<lparr>total_cf = 2005, violations = 2, objective = 5, all_components = [2, 5],
            weighted = (), is_weighted = False\<rparr>"
  have "length (all_components ?a) = length (all_components ?b)" by simp
  with C8_addition_pointwise_and_cancel [of ?a ?b] show ?thesis by blast
qed

section \<open>Properties of the tabu list manager\<close>

lemma purge_filter: "purge it xs = filter (\<lambda>p. \<not> out_iter p \<le> it) xs"
  by (induction xs) auto

lemma list_member_loop_iff:
  "list_member_loop Inverse mv xs = (\<exists>p\<in>set xs. Inverse mv (elem p))"
  by (induction xs) auto

text \<open>
  C5. If the current cost plus the move cost is strictly below the recorded best cost,
  \<^verbatim>\<open>ProhibitedMove\<close> answers false whatever the list holds; otherwise it answers true
  exactly when some item of the list has a move that \<open>mv\<close> is the inverse of.
\<close>

theorem C5_aspiration_overrides_list:
  "ProhibitedMove Inverse tm mv mv_cost =
     (if current_state_cost tm + mv_cost < best_state_cost tm then False
      else (\<exists>item\<in>set (tlist tm). Inverse mv (elem item)))"
  by (simp add: ProhibitedMove_def Aspiration_def LessThan_def ListMember_def
      list_member_loop_iff)

theorem C5_witness:
  "\<not> ProhibitedMove (=)
       \<lparr>min_tenure = 1, max_tenure = 3, iter = 4,
        tlist = [\<lparr>elem = (7::nat), out_iter = 6\<rparr>],
        current_state_cost = 10, best_state_cost = 8\<rparr> 7 (- 3)
   \<and> ProhibitedMove (=)
       \<lparr>min_tenure = 1, max_tenure = 3, iter = 4,
        tlist = [\<lparr>elem = (7::nat), out_iter = 6\<rparr>],
        current_state_cost = 10, best_state_cost = 8\<rparr> 7 (- 2)"
  using C5_aspiration_overrides_list
    [of "(=)" "\<lparr>min_tenure = 1, max_tenure = 3, iter = 4,
                tlist = [\<lparr>elem = (7::nat), out_iter = 6\<rparr>],
                current_state_cost = 10, best_state_cost = 8\<rparr>" 7]
  by simp

text \<open>
  C10. \<^verbatim>\<open>InsertMove\<close> is the iteration update applied to the list with the new item in
  front, followed by the recording of the two costs: the list it leaves is the old list
  with the new item (expiry: current iteration plus tenure) prepended and every item whose
  expiry is at most the current iteration removed, and the iteration counter is one more.
\<close>

theorem C10_insert_move_is_insert_and_tick:
  "InsertMove tm mv mv_cost curr_cost best_cost tenure =
     UpdateAspirationFunction
       (UpdateIteration (tm\<lparr>tlist := \<lparr>elem = mv, out_iter = iter tm + tenure\<rparr> # tlist tm\<rparr>))
       curr_cost best_cost
   \<and> tlist (InsertMove tm mv mv_cost curr_cost best_cost tenure) =
       filter (\<lambda>p. \<not> out_iter p \<le> iter tm)
         (\<lparr>elem = mv, out_iter = iter tm + tenure\<rparr> # tlist tm)
   \<and> iter (InsertMove tm mv mv_cost curr_cost best_cost tenure) = iter tm + 1
   \<and> current_state_cost (InsertMove tm mv mv_cost curr_cost best_cost tenure) = curr_cost
   \<and> best_state_cost (InsertMove tm mv mv_cost curr_cost best_cost tenure) = best_cost
   \<and> min_tenure (InsertMove tm mv mv_cost curr_cost best_cost tenure) = min_tenure tm
   \<and> max_tenure (InsertMove tm mv mv_cost curr_cost best_cost tenure) = max_tenure tm"
  by (simp add: InsertMove_def InsertIntoList_def UpdateAspirationFunction_def
      UpdateIteration_def PurgeList_def purge_filter Let_def)

theorem C10_witness:
  "InsertMove
     \<lparr>min_tenure = 1, max_tenure = 3, iter = 4,
      tlist = [\<lparr>elem = (7::nat), out_iter = 6\<rparr>, \<lparr>elem = 2, out_iter = 4\<rparr>],
      current_state_cost = 10, best_state_cost = 8\<rparr> 9 (- 1) 9 8 2
   = \<lparr>min_tenure = 1, max_tenure = 3, iter = 5,
      tlist = [\<lparr>elem = 9, out_iter = 6\<rparr>, \<lparr>elem = 7, out_iter = 6\<rparr>],
      current_state_cost = 9, best_state_cost = 8\<rparr>"
  using C10_insert_move_is_insert_and_tick
    [of "\<lparr>min_tenure = 1, max_tenure = 3, iter = 4,
          tlist = [\<lparr>elem = (7::nat), out_iter = 6\<rparr>, \<lparr>elem = 2, out_iter = 4\<rparr>],
          current_state_cost = 10, best_state_cost = 8\<rparr>" 9 "- 1" 9 8 2]
  by (simp add: UpdateAspirationFunction_def UpdateIteration_def PurgeList_def)

subsection \<open>The life of an item\<close>


lemma iter_UpdateIteration: "iter (UpdateIteration tm) = iter tm + 1"
  by (simp add: UpdateIteration_def PurgeList_def Let_def)


lemma iter_InsertMove: "iter (InsertMove tm mv mv_cost curr_cost best_cost tenure) = iter tm + 1"
  by (simp add: InsertMove_def InsertIntoList_def UpdateAspirationFunction_def
      UpdateIteration_def PurgeList_def Let_def)

lemma iter_apply_op [simp]: "iter (apply_op tm x) = iter tm + 1"
  by (cases x) (simp_all add: iter_UpdateIteration iter_InsertMove)


lemma iter_run_ops [simp]: "iter (run_ops tm ops) = iter tm + length ops"
  by (induction ops arbitrary: tm) auto





section \<open>Properties of the comparisons\<close>

lemma Hierarchical_less_from_prefix:
  "length cs1 \<le> length cs2 \<Longrightarrow> i \<le> length cs1 \<Longrightarrow>
   Hierarchical_less_from i cs1 cs2 =
     Some (ord_class.lexordp (drop i cs1) (drop i (take (length cs1) cs2)))"
proof (induction i cs1 cs2 rule: Hierarchical_less_from.induct)
  case (1 i cs1 cs2)
  show ?case
  proof (cases "i < length cs1")
    case True
    with "1.prems" have i2: "i < length (take (length cs1) cs2)" by simp
    from True have d1: "drop i cs1 = cs1 ! i # drop (Suc i) cs1"
      by (simp add: Cons_nth_drop_Suc)
    from i2 have d2: "drop i (take (length cs1) cs2) =
        cs2 ! i # drop (Suc i) (take (length cs1) cs2)"
      using Cons_nth_drop_Suc [OF i2] by simp
    show ?thesis
    proof (cases "cs1 ! i < cs2 ! i")
      case lt: True
      with True "1.prems" show ?thesis
        by (subst Hierarchical_less_from.simps) (simp add: d1 d2)
    next
      case nlt: False
      show ?thesis
      proof (cases "cs2 ! i < cs1 ! i")
        case gt: True
        with nlt True "1.prems" show ?thesis
          by (subst Hierarchical_less_from.simps) (simp add: d1 d2)
      next
        case ngt: False
        with nlt have eq: "cs1 ! i = cs2 ! i" by simp
        from True "1.prems" have "i < length cs2" by simp
        from "1.IH" [OF True this nlt] ngt "1.prems" True
        have "Hierarchical_less_from (i + 1) cs1 cs2 =
            Some (ord_class.lexordp (drop (i + 1) cs1) (drop (i + 1) (take (length cs1) cs2)))"
          by simp
        with nlt ngt True "1.prems" show ?thesis
          by (subst Hierarchical_less_from.simps) (simp add: d1 d2 eq)
      qed
    qed
  next
    case False
    with "1.prems" show ?thesis
      by (subst Hierarchical_less_from.simps) simp
  qed
qed

lemma Hierarchical_less_prefix:
  "length (all_components a) \<le> length (all_components b) \<Longrightarrow>
   Hierarchical_less a b =
     Some (ord_class.lexordp (all_components a) (take (length (all_components a)) (all_components b)))"
  using Hierarchical_less_from_prefix [of "all_components a" "all_components b" 0]
  by (simp add: Hierarchical_less_def)

lemma lexordp_irrefl_int: "\<not> ord_class.lexordp xs (xs :: int list)"
  by (induction xs) auto

text \<open>
  C6, with the length condition the code needs. In the aggregated regime \<open>a < b\<close> is the
  comparison of the weighted scalars when both operands are weighted and of the totals
  otherwise. In the hierarchical regime, for component vectors of equal length, \<open>a < b\<close> is
  the lexicographic order of the vectors, and vectors that agree at every position are
  equal: neither is below the other.
\<close>

theorem C6_ordering_regimes:
  "Default_less ltw a b =
     (if is_weighted a \<and> is_weighted b then ltw (weighted a) (weighted b)
      else total_cf a < total_cf b)
   \<and> (length (all_components a) = length (all_components b) \<longrightarrow>
        Hierarchical_less a b = Some (ord_class.lexordp (all_components a) (all_components b))
        \<and> ((\<forall>i < length (all_components a). all_components a ! i = all_components b ! i) \<longrightarrow>
             Hierarchical_less a b = Some False \<and> Hierarchical_less b a = Some False))"
proof -
  have agg: "Default_less ltw a b =
     (if is_weighted a \<and> is_weighted b then ltw (weighted a) (weighted b)
      else total_cf a < total_cf b)"
    by (simp add: Default_less_def LessThan_def)
  have hier: "Hierarchical_less a b = Some (ord_class.lexordp (all_components a) (all_components b))"
    if "length (all_components a) = length (all_components b)"
    using that Hierarchical_less_prefix [of a b] by simp
  have tie: "Hierarchical_less a b = Some False \<and> Hierarchical_less b a = Some False"
    if len: "length (all_components a) = length (all_components b)"
      and same: "\<forall>i < length (all_components a). all_components a ! i = all_components b ! i"
  proof -
    from len same have "all_components a = all_components b"
      by (simp add: list_eq_iff_nth_eq)
    then show ?thesis
      using Hierarchical_less_prefix [of a b] Hierarchical_less_prefix [of b a]
      by (simp add: lexordp_irrefl_int)
  qed
  from agg hier tie show ?thesis by blast
qed

text \<open>
  The scenario of the specification: \<open>a\<close> with components \<open>[0, 10]\<close> and total \<open>10\<close>, \<open>b\<close>
  with components \<open>[1, 0]\<close> and total \<open>1000\<close>. Both regimes put \<open>a\<close> below \<open>b\<close>.
\<close>

theorem C6_witness:
  "Default_less (\<lambda>x y. False)
     \<lparr>total_cf = 10, violations = 0, objective = 10, all_components = [0, 10],
      weighted = (), is_weighted = False\<rparr>
     \<lparr>total_cf = 1000, violations = 1, objective = 0, all_components = [1, 0],
      weighted = (), is_weighted = False\<rparr>
   \<and> Hierarchical_less
     \<lparr>total_cf = 10, violations = 0, objective = 10, all_components = [0, 10],
      weighted = (), is_weighted = False\<rparr>
     \<lparr>total_cf = 1000, violations = 1, objective = 0, all_components = [1, 0],
      weighted = (), is_weighted = False\<rparr> = Some True
   \<and> Hierarchical_less
     \<lparr>total_cf = 10, violations = 0, objective = 10, all_components = [0, 10],
      weighted = (), is_weighted = False\<rparr>
     \<lparr>total_cf = 10, violations = 0, objective = 10, all_components = [0, 10],
      weighted = (), is_weighted = True\<rparr> = Some False"
proof -
  let ?a = "\<lparr>total_cf = 10, violations = 0, objective = 10, all_components = [0, 10],
            weighted = (), is_weighted = False\<rparr>"
  let ?b = "\<lparr>total_cf = 1000, violations = 1, objective = 0, all_components = [1, 0],
            weighted = (), is_weighted = False\<rparr>"
  let ?a' = "\<lparr>total_cf = 10, violations = 0, objective = 10, all_components = [0, 10],
            weighted = (), is_weighted = True\<rparr>"
  have l: "length (all_components ?a) = length (all_components ?b)"
    and l': "length (all_components ?a) = length (all_components ?a')"
    and s: "\<forall>i < length (all_components ?a). all_components ?a ! i = all_components ?a' ! i"
    by simp_all
  from C6_ordering_regimes [of "\<lambda>x y. False" ?a ?b] l
  have "Default_less (\<lambda>x y. False) ?a ?b" and "Hierarchical_less ?a ?b = Some True"
    by simp_all
  moreover from C6_ordering_regimes [of "\<lambda>x y. False" ?a ?a'] l' s
  have "Hierarchical_less ?a ?a' = Some False" by blast
  ultimately show ?thesis by blast
qed

text \<open>
  Without the length condition the hierarchical comparison is not the lexicographic order:
  a structure with no components (the default constructor's) is lexicographically below
  one with the single component \<open>0\<close>, yet \<open>a < b\<close> answers false, its loop running over the
  indices of \<open>a\<close> only; and \<open>b < a\<close> reads \<open>a\<close> past its end.
\<close>

theorem C6_counterexample:
  "ord_class.lexordp
     (all_components \<lparr>total_cf = 0, violations = 0, objective = 0, all_components = [],
        weighted = (), is_weighted = False\<rparr>)
     (all_components \<lparr>total_cf = 0, violations = 0, objective = 0, all_components = [0],
        weighted = (), is_weighted = False\<rparr>)
   \<and> Hierarchical_less
       \<lparr>total_cf = 0, violations = 0, objective = 0, all_components = [],
        weighted = (), is_weighted = False\<rparr>
       \<lparr>total_cf = 0, violations = 0, objective = 0, all_components = [0],
        weighted = (), is_weighted = False\<rparr> = Some False
   \<and> Hierarchical_less
       \<lparr>total_cf = 0, violations = 0, objective = 0, all_components = [0],
        weighted = (), is_weighted = False\<rparr>
       \<lparr>total_cf = 0, violations = 0, objective = 0, all_components = [],
        weighted = (), is_weighted = False\<rparr> = None"
  by (simp add: Hierarchical_less_def Hierarchical_less_from.simps)



section \<open>Properties of the set union\<close>

lemma execute_at_nth:
  "length funcs = length moves \<Longrightarrow> i < length moves \<Longrightarrow>
   execute_at i call funcs moves = Inr (call (funcs ! i) (moves ! i))"
proof (induction funcs arbitrary: i moves)
  case Nil
  then show ?case by simp
next
  case (Cons f fs)
  from Cons.prems obtain m ms where moves: "moves = m # ms" and len: "length fs = length ms"
    by (cases moves) auto
  show ?case
  proof (cases i)
    case 0
    then show ?thesis unfolding moves by (cases fs; cases ms) simp_all
  next
    case (Suc k)
    with Cons.prems moves have k: "k < length ms" by simp
    with len obtain f' fs' m' ms' where fs: "fs = f' # fs'" and ms: "ms = m' # ms'"
      by (cases fs; cases ms) auto
    from Cons.IH [OF len k] show ?thesis
      unfolding moves Suc fs ms by simp
  qed
qed

lemma get_first_active_first:
  "i < length moves \<Longrightarrow> active (moves ! i) \<Longrightarrow> (\<forall>j<i. \<not> active (moves ! j)) \<Longrightarrow>
   get_first_active moves level = Inr (level + i)"
proof (induction moves level arbitrary: i rule: get_first_active.induct)
  case (1 this_move level)
  then show ?case by simp
next
  case (2 this_move v va level)
  show ?case
  proof (cases i)
    case 0
    with 2 show ?thesis by simp
  next
    case (Suc k)
    with "2.prems" have na: "\<not> active this_move" by auto
    from Suc "2.prems" have "k < length (v # va)" "active ((v # va) ! k)"
      "\<forall>j<k. \<not> active ((v # va) ! j)"
      by auto
    from "2.IH" [OF na this] Suc na show ?thesis by simp
  qed
next
  case (3 level)
  then show ?case by simp
qed

text \<open>
  C9. When base \<open>i\<close> is the active component of a set-union move (its element is active,
  no other is), the composite's delta cost is base \<open>i\<close>'s delta cost of the \<open>i\<close>-th
  component move, and the composite's move application is base \<open>i\<close>'s: the state it
  leaves is the one base \<open>i\<close> makes, no other base being called.
\<close>

theorem C9_set_union_dispatches_to_active:
  assumes "length moves = length nhes" and "i < length nhes" and "active (moves ! i)"
    and "\<forall>j < length moves. j \<noteq> i \<longrightarrow> \<not> active (moves ! j)"
  shows "SetUnion_DeltaCostFunctionComponents nhes st moves =
           Inr (DeltaCostFunctionComponents (nhes ! i) st (RawMove (moves ! i)))
       \<and> SetUnion_MakeMove nhes st moves = Inr (MakeMove (nhes ! i) st (RawMove (moves ! i)))"
proof -
  from assms have "get_first_active moves 0 = Inr (0 + i)"
    by (intro get_first_active_first) auto
  then have g: "get_first_active moves 0 = Inr i" by simp
  from assms have
    "execute_at i (\<lambda>f this_move. f st (RawMove this_move))
       (map DeltaCostFunctionComponents nhes) moves =
     Inr (DeltaCostFunctionComponents (nhes ! i) st (RawMove (moves ! i)))"
    and "execute_at i (\<lambda>f this_move. f st (RawMove this_move)) (map MakeMove nhes) moves =
     Inr (MakeMove (nhes ! i) st (RawMove (moves ! i)))"
    by (simp_all add: execute_at_nth)
  with g show ?thesis
    by (simp add: SetUnion_DeltaCostFunctionComponents_def SetUnion_MakeMove_def)
qed

theorem C9_witness:
  "SetUnion_MakeMove [add_explorer, sub_explorer] 10
     [\<lparr>RawMove = 5, active = False\<rparr>, \<lparr>RawMove = 3, active = True\<rparr>] = Inr 7
   \<and> SetUnion_DeltaCostFunctionComponents [add_explorer, sub_explorer] 10
     [\<lparr>RawMove = 5, active = False\<rparr>, \<lparr>RawMove = 3, active = True\<rparr>] =
     Inr \<lparr>total_cf = - 3, violations = 0, objective = - 3, all_components = [- 3],
          weighted = (), is_weighted = False\<rparr>"
proof -
  let ?moves = "[\<lparr>RawMove = 5, active = False\<rparr>, \<lparr>RawMove = 3 :: int, active = True\<rparr>]"
  have 1: "length ?moves = length [add_explorer, sub_explorer]" by simp
  have 2: "1 < length [add_explorer, sub_explorer]" by simp
  have 3: "active (?moves ! 1)" by simp
  have 4: "\<forall>j < length ?moves. j \<noteq> 1 \<longrightarrow> \<not> active (?moves ! j)" by (simp add: less_Suc_eq)
  from C9_set_union_dispatches_to_active [OF 1 2 3 4, of 10] show ?thesis
    by (simp add: sub_explorer_def)
qed

section \<open>Properties of the simulated annealing runners\<close>

text \<open>
  In \<^verbatim>\<open>SimulatedAnnealingWithReheating\<close> every iteration ends with the cooling check on
  the counters as the iteration has left them.
\<close>

lemma Reheating_iteration_checks_every_iteration:
  "Reheating_iteration acceptable s =
     (let ns = neighbors_sampled s + 1;
          na = (if acceptable then neighbors_accepted s + 1 else neighbors_accepted s)
      in if ns = max_neighbors_sampled s \<or> na = max_neighbors_accepted s
         then s\<lparr>temperature := temperature s * cooling_rate s,
                neighbors_sampled := 0, neighbors_accepted := 0\<rparr>
         else s\<lparr>neighbors_sampled := ns, neighbors_accepted := na\<rparr>)"
  by (simp add: Reheating_iteration_def Reheating_UpdateIterationCounter_def
      Reheating_CompleteMove_def SelectMove_def Let_def)

text \<open>
  In \<^verbatim>\<open>SimulatedAnnealing\<close> an iteration with an accepted move ends with the check, an
  iteration with a rejected move only counts the sample.
\<close>

lemma iteration_checks_on_acceptance_only:
  "iteration True s =
     (let ns = neighbors_sampled s + 1; na = neighbors_accepted s + 1
      in if ns = max_neighbors_sampled s \<or> na = max_neighbors_accepted s
         then s\<lparr>temperature := temperature s * cooling_rate s,
                neighbors_sampled := 0, neighbors_accepted := 0\<rparr>
         else s\<lparr>neighbors_sampled := ns, neighbors_accepted := na\<rparr>)"
  "iteration False s = s\<lparr>neighbors_sampled := neighbors_sampled s + 1\<rparr>"
  by (simp_all add: iteration_def CompleteMove_def SelectMove_def Let_def)

text \<open>
  C7 at an input where the code departs from it. Two samples per temperature are allowed
  and one has been drawn. The iteration draws the second and rejects it: the sample
  counter now equals its maximum, yet the temperature is not lowered and the counters are
  not reset, no check being made. The next iteration, with an accepted move, makes the
  check with the sample counter at three, past its maximum, and does not cool either. The
  reheating runner cools at the end of the first of these iterations.
\<close>

theorem C7_no_cooling_check_after_rejected_move:
  "iteration False
     \<lparr>temperature = 10 :: real, cooling_rate = 1 / 2, max_neighbors_sampled = 2,
      neighbors_sampled = 1, max_neighbors_accepted = 5, neighbors_accepted = 0\<rparr>
   = \<lparr>temperature = 10, cooling_rate = 1 / 2, max_neighbors_sampled = 2,
      neighbors_sampled = 2, max_neighbors_accepted = 5, neighbors_accepted = 0\<rparr>
   \<and> iteration True (iteration False
     \<lparr>temperature = 10 :: real, cooling_rate = 1 / 2, max_neighbors_sampled = 2,
      neighbors_sampled = 1, max_neighbors_accepted = 5, neighbors_accepted = 0\<rparr>)
   = \<lparr>temperature = 10, cooling_rate = 1 / 2, max_neighbors_sampled = 2,
      neighbors_sampled = 3, max_neighbors_accepted = 5, neighbors_accepted = 1\<rparr>
   \<and> Reheating_iteration False
     \<lparr>temperature = 10 :: real, cooling_rate = 1 / 2, max_neighbors_sampled = 2,
      neighbors_sampled = 1, max_neighbors_accepted = 5, neighbors_accepted = 0\<rparr>
   = \<lparr>temperature = 5, cooling_rate = 1 / 2, max_neighbors_sampled = 2,
      neighbors_sampled = 0, max_neighbors_accepted = 5, neighbors_accepted = 0\<rparr>"
  by (simp add: iteration_def Reheating_iteration_def CompleteMove_def SelectMove_def
      Reheating_UpdateIterationCounter_def Let_def)

section \<open>Properties of the selection of the best move\<close>

lemma final_best_le_start:
  "0 < nb \<Longrightarrow> fst (final_best A d ms c nb) \<le> c"
proof (induction ms arbitrary: c nb)
  case Nil
  then show ?case by simp
next
  case (Cons x xs)
  have 1: "fst (final_best A d xs (d x) 1) \<le> d x" by (rule Cons.IH) simp
  have 2: "fst (final_best A d xs c (nb + 1)) \<le> c" by (rule Cons.IH) simp
  have 3: "fst (final_best A d xs c nb) \<le> c" by (rule Cons.IH) (rule Cons.prems)
  from 1 2 3 Cons.prems show ?case by auto
qed

lemma final_best_le_accepted:
  "x \<in> set ms \<Longrightarrow> A x (d x) \<Longrightarrow> fst (final_best A d ms c nb) \<le> d x"
proof (induction ms arbitrary: c nb)
  case Nil
  then show ?case by simp
next
  case (Cons y ys)
  show ?case
  proof (cases "x = y")
    case True
    have 1: "fst (final_best A d ys (d y) 1) \<le> d y" by (rule final_best_le_start) simp
    have 2: "fst (final_best A d ys c (nb + 1)) \<le> c" by (rule final_best_le_start) simp
    have 3: "0 < nb \<Longrightarrow> fst (final_best A d ys c nb) \<le> c" by (rule final_best_le_start)
    from True Cons.prems 1 2 3 show ?thesis by auto
  next
    case False
    with Cons.prems have "x \<in> set ys" by simp
    from Cons.IH [OF this Cons.prems(2)] show ?thesis by simp
  qed
qed

lemma final_best_attained:
  "fst (final_best A d ms c nb) = c \<and> snd (final_best A d ms c nb) = nb \<and>
     (\<forall>x\<in>set ms. \<not> A x (d x) \<or> (0 < nb \<and> c < d x))
   \<or> (\<exists>x\<in>set ms. A x (d x) \<and> d x = fst (final_best A d ms c nb))"
proof (induction ms arbitrary: c nb)
  case Nil
  then show ?case by simp
next
  case (Cons y ys)
  show ?case
  proof (cases "A y (d y)")
    case False
    with Cons.IH [of c nb] show ?thesis by auto
  next
    case acc: True
    show ?thesis
    proof (cases "nb = 0 \<or> d y < c")
      case True
      with acc Cons.IH [of "d y" 1] show ?thesis by auto
    next
      case nb: False
      show ?thesis
      proof (cases "d y = c")
        case True
        with acc nb Cons.IH [of c "nb + 1"] show ?thesis by auto
      next
        case False
        with acc nb Cons.IH [of c nb] show ?thesis by auto
      qed
    qed
  qed
qed

lemma final_best_count:
  "snd (final_best A d ms c nb) =
     (if 0 < nb \<and> c = fst (final_best A d ms c nb) then nb else 0)
     + length (filter (\<lambda>x. A x (d x) \<and> d x = fst (final_best A d ms c nb)) ms)"
proof (induction ms arbitrary: c nb)
  case Nil
  then show ?case by simp
next
  case (Cons y ys)
  show ?case
  proof (cases "A y (d y)")
    case False
    with Cons.IH [of c nb] show ?thesis by simp
  next
    case acc: True
    show ?thesis
    proof (cases "nb = 0 \<or> d y < c")
      case True
      have "fst (final_best A d ys (d y) 1) \<le> d y" by (rule final_best_le_start) simp
      with True acc Cons.IH [of "d y" 1] show ?thesis by auto
    next
      case nb: False
      show ?thesis
      proof (cases "d y = c")
        case True
        with acc nb Cons.IH [of c "nb + 1"] show ?thesis by auto
      next
        case False
        from nb have "fst (final_best A d ys c nb) \<le> c" by (intro final_best_le_start) simp
        with False acc nb Cons.IH [of c nb] show ?thesis by auto
      qed
    qed
  qed
qed

lemma best_loop_run:
  "rs \<in> set (draw_space A d ms (cost (best_move s)) (number_of_bests s)) \<Longrightarrow>
   \<exists>s'. best_loop A d ms rs s = Some s'
      \<and> number_of_bests s' = snd (final_best A d ms (cost (best_move s)) (number_of_bests s))
      \<and> cost (best_move s') = fst (final_best A d ms (cost (best_move s)) (number_of_bests s))
      \<and> explored s' = explored s + length ms
      \<and> (best_move s' = best_move s \<and> (number_of_bests s = 0 \<longrightarrow> number_of_bests s' = 0)
          \<or> move (best_move s') \<in> set ms \<and> A (move (best_move s')) (cost (best_move s'))
            \<and> cost (best_move s') = d (move (best_move s')))"
proof (induction ms arbitrary: s rs)
  case Nil
  then show ?case by simp
next
  case (Cons y ys)
  let ?mv = "\<lparr>move = y, cost = d y, is_valid = True\<rparr>"
  let ?s1 = "s\<lparr>explored := explored s + 1\<rparr>"
  show ?case
  proof (cases "A y (d y)")
    case False
    with Cons.prems have "rs \<in> set (draw_space A d ys (cost (best_move ?s1)) (number_of_bests ?s1))"
      by simp
    from Cons.IH [OF this] False show ?thesis by (auto simp: Let_def)
  next
    case acc: True
    show ?thesis
    proof (cases "number_of_bests s = 0 \<or> d y < cost (best_move s)")
      case True
      let ?s2 = "?s1\<lparr>best_move := ?mv, number_of_bests := 1\<rparr>"
      from True acc Cons.prems
      have "rs \<in> set (draw_space A d ys (cost (best_move ?s2)) (number_of_bests ?s2))"
        by auto
      from Cons.IH [OF this] obtain s' where
        s': "best_loop A d ys rs ?s2 = Some s'"
        "number_of_bests s' = snd (final_best A d ys (d y) 1)"
        "cost (best_move s') = fst (final_best A d ys (d y) 1)"
        "explored s' = explored s + 1 + length ys"
        "best_move s' = ?mv
          \<or> move (best_move s') \<in> set ys \<and> A (move (best_move s')) (cost (best_move s'))
            \<and> cost (best_move s') = d (move (best_move s'))"
        by auto
      from True acc have "best_loop A d (y # ys) rs s = best_loop A d ys rs ?s2"
        by (auto simp: Let_def)
      with s' True acc show ?thesis by auto
    next
      case nb: False
      show ?thesis
      proof (cases "d y = cost (best_move s)")
        case tie: True
        from tie nb acc Cons.prems obtain r rs' where
          rs: "rs = r # rs'" and r: "r < number_of_bests s + 1"
          and rs': "rs' \<in> set (draw_space A d ys (cost (best_move s)) (number_of_bests s + 1))"
          by auto
        let ?s2 = "?s1\<lparr>best_move := (if r = 0 then ?mv else best_move ?s1),
                       number_of_bests := number_of_bests ?s1 + 1\<rparr>"
        from rs' tie
        have "rs' \<in> set (draw_space A d ys (cost (best_move ?s2)) (number_of_bests ?s2))"
          by simp
        from Cons.IH [OF this] obtain s' where
          s': "best_loop A d ys rs' ?s2 = Some s'"
          "number_of_bests s' = snd (final_best A d ys (cost (best_move ?s2)) (number_of_bests s + 1))"
          "cost (best_move s') = fst (final_best A d ys (cost (best_move ?s2)) (number_of_bests s + 1))"
          "explored s' = explored s + 1 + length ys"
          "best_move s' = best_move ?s2
            \<or> move (best_move s') \<in> set ys \<and> A (move (best_move s')) (cost (best_move s'))
              \<and> cost (best_move s') = d (move (best_move s'))"
          by auto
        from tie nb acc rs have "best_loop A d (y # ys) rs s = best_loop A d ys rs' ?s2"
          by (simp add: Let_def)
        moreover from tie have "cost (best_move ?s2) = cost (best_move s)" by simp
        ultimately show ?thesis using s' tie nb acc by (cases "r = 0") auto
      next
        case worse: False
        from worse nb acc Cons.prems
        have "rs \<in> set (draw_space A d ys (cost (best_move ?s1)) (number_of_bests ?s1))"
          by auto
        from Cons.IH [OF this] obtain s' where
          s': "best_loop A d ys rs ?s1 = Some s'"
          "number_of_bests s' = snd (final_best A d ys (cost (best_move s)) (number_of_bests s))"
          "cost (best_move s') = fst (final_best A d ys (cost (best_move s)) (number_of_bests s))"
          "explored s' = explored s + 1 + length ys"
          "best_move s' = best_move s
            \<or> move (best_move s') \<in> set ys \<and> A (move (best_move s')) (cost (best_move s'))
              \<and> cost (best_move s') = d (move (best_move s'))"
          by auto
        from worse nb acc have "best_loop A d (y # ys) rs s = best_loop A d ys rs ?s1"
          by (auto simp: Let_def)
        with s' worse nb acc show ?thesis by auto
      qed
    qed
  qed
qed

lemma draw_space_nonempty: "draw_space A d ms c nb \<noteq> []"
proof (induction ms arbitrary: c nb)
  case Nil
  then show ?case by simp
next
  case (Cons y ys)
  have "concat (map (\<lambda>r. map (\<lambda>rs. r # rs) (draw_space A d ys c (nb + 1))) [0..<nb + 1]) \<noteq> []"
    using Cons.IH [of c "nb + 1"] by (simp add: upt_rec [of 0])
  with Cons.IH show ?case by simp
qed

lemma length_filter_concat_map:
  "length (filter P (concat (map g xs))) = (\<Sum>x\<leftarrow>xs. length (filter P (g x)))"
  by (induction xs) auto

lemma sum_list_const_on:
  "(\<And>x. x \<in> set xs \<Longrightarrow> f x = (k::nat)) \<Longrightarrow> (\<Sum>x\<leftarrow>xs. f x) = length xs * k"
  by (induction xs) auto

lemma loop_outcomes_returning_tie:
  assumes acc: "A y (d y)" and nb: "0 < number_of_bests s" and tie: "d y = cost (best_move s)"
  shows "loop_outcomes_returning A d (y # ys) s m =
           loop_outcomes_returning A d ys
             (s\<lparr>explored := explored s + 1,
                best_move := \<lparr>move = y, cost = d y, is_valid = True\<rparr>,
                number_of_bests := number_of_bests s + 1\<rparr>) m
         + number_of_bests s *
           loop_outcomes_returning A d ys
             (s\<lparr>explored := explored s + 1, number_of_bests := number_of_bests s + 1\<rparr>) m"
proof -
  let ?c = "cost (best_move s)" and ?nb = "number_of_bests s"
  let ?mv = "\<lparr>move = y, cost = d y, is_valid = True\<rparr>"
  let ?s0 = "s\<lparr>explored := explored s + 1, best_move := ?mv, number_of_bests := ?nb + 1\<rparr>"
  let ?s1 = "s\<lparr>explored := explored s + 1, number_of_bests := ?nb + 1\<rparr>"
  let ?\<Omega> = "draw_space A d ys ?c (?nb + 1)"
  let ?P = "\<lambda>t rs. case best_loop A d ys rs t of None \<Rightarrow> False
                     | Some s' \<Rightarrow> move (best_move s') = m"
  let ?Q = "\<lambda>rs. case best_loop A d (y # ys) rs s of None \<Rightarrow> False
                     | Some s' \<Rightarrow> move (best_move s') = m"
  have step: "?Q (r # rs) = ?P (if r = 0 then ?s0 else ?s1) rs" for r rs
    using acc nb tie by (simp add: Let_def)
  have per_r: "length (filter ?Q (map (\<lambda>rs. r # rs) ?\<Omega>)) =
      length (filter (?P (if r = 0 then ?s0 else ?s1)) ?\<Omega>)" for r
    by (simp add: filter_map comp_def step del: best_loop.simps)
  have "loop_outcomes_returning A d (y # ys) s m =
      (\<Sum>r\<leftarrow>[0..<?nb + 1]. length (filter ?Q (map (\<lambda>rs. r # rs) ?\<Omega>)))"
    using acc nb tie
    by (simp add: loop_outcomes_returning_def length_filter_concat_map del: best_loop.simps upt_Suc)
  also have "\<dots> = (\<Sum>r\<leftarrow>[0..<?nb + 1]. length (filter (?P (if r = 0 then ?s0 else ?s1)) ?\<Omega>))"
    by (simp only: per_r)
  also have "[0..<?nb + 1] = 0 # [1..<?nb + 1]"
    by (simp add: upt_rec [of 0])
  also have "(\<Sum>r\<leftarrow>0 # [1..<?nb + 1]. length (filter (?P (if r = 0 then ?s0 else ?s1)) ?\<Omega>)) =
      length (filter (?P ?s0) ?\<Omega>)
      + (\<Sum>r\<leftarrow>[1..<?nb + 1]. length (filter (?P (if r = 0 then ?s0 else ?s1)) ?\<Omega>))"
    by simp
  also have "(\<Sum>r\<leftarrow>[1..<?nb + 1]. length (filter (?P (if r = 0 then ?s0 else ?s1)) ?\<Omega>)) =
      length [1..<?nb + 1] * length (filter (?P ?s1) ?\<Omega>)"
    by (rule sum_list_const_on) auto
  finally show ?thesis
    using tie by (simp add: loop_outcomes_returning_def)
qed

lemma loop_outcomes_returning_better:
  assumes acc: "A y (d y)" and nb: "number_of_bests s = 0 \<or> d y < cost (best_move s)"
  shows "loop_outcomes_returning A d (y # ys) s m =
           loop_outcomes_returning A d ys
             (s\<lparr>explored := explored s + 1,
                best_move := \<lparr>move = y, cost = d y, is_valid = True\<rparr>,
                number_of_bests := 1\<rparr>) m"
proof -
  have "best_loop A d (y # ys) rs s =
      best_loop A d ys rs
        (s\<lparr>explored := explored s + 1,
           best_move := \<lparr>move = y, cost = d y, is_valid = True\<rparr>,
           number_of_bests := 1\<rparr>)" for rs
    using assms by (auto simp: Let_def)
  moreover have "draw_space A d (y # ys) (cost (best_move s)) (number_of_bests s) =
      draw_space A d ys (d y) 1"
    using assms by auto
  ultimately show ?thesis
    by (simp add: loop_outcomes_returning_def del: best_loop.simps draw_space.simps)
qed

lemma loop_outcomes_returning_skip:
  assumes "\<not> A y (d y) \<or> (0 < number_of_bests s \<and> cost (best_move s) < d y)"
  shows "loop_outcomes_returning A d (y # ys) s m =
           loop_outcomes_returning A d ys (s\<lparr>explored := explored s + 1\<rparr>) m"
proof -
  have "best_loop A d (y # ys) rs s = best_loop A d ys rs (s\<lparr>explored := explored s + 1\<rparr>)"
    for rs
    using assms by (auto simp: Let_def)
  moreover have "draw_space A d (y # ys) (cost (best_move s)) (number_of_bests s) =
      draw_space A d ys (cost (best_move s)) (number_of_bests s)"
    using assms by auto
  ultimately show ?thesis
    by (simp add: loop_outcomes_returning_def del: best_loop.simps draw_space.simps)
qed

lemma loop_outcomes_returning_count:
  "loop_outcomes_returning A d ms s m
     * snd (final_best A d ms (cost (best_move s)) (number_of_bests s)) =
   ((if 0 < number_of_bests s
        \<and> cost (best_move s) = fst (final_best A d ms (cost (best_move s)) (number_of_bests s))
        \<and> move (best_move s) = m
     then number_of_bests s else 0)
    + length (filter (\<lambda>x. x = m \<and> A x (d x)
          \<and> d x = fst (final_best A d ms (cost (best_move s)) (number_of_bests s))) ms))
   * length (draw_space A d ms (cost (best_move s)) (number_of_bests s))"
proof (induction ms arbitrary: s)
  case Nil
  show ?case by (simp add: loop_outcomes_returning_def)
next
  case (Cons y ys)
  let ?c = "cost (best_move s)" and ?nb = "number_of_bests s"
  let ?mv = "\<lparr>move = y, cost = d y, is_valid = True\<rparr>"
  show ?case
  proof (cases "\<not> A y (d y) \<or> (0 < ?nb \<and> ?c < d y)")
    case skip: True
    let ?s1 = "s\<lparr>explored := explored s + 1\<rparr>"
    have fb: "final_best A d (y # ys) ?c ?nb = final_best A d ys ?c ?nb"
      using skip by auto
    have ds: "draw_space A d (y # ys) ?c ?nb = draw_space A d ys ?c ?nb"
      using skip by auto
    have not_counted: "\<not> (A y (d y) \<and> d y = fst (final_best A d ys ?c ?nb))"
    proof
      assume a: "A y (d y) \<and> d y = fst (final_best A d ys ?c ?nb)"
      with skip have "0 < ?nb" "?c < d y" by auto
      moreover from \<open>0 < ?nb\<close> have "fst (final_best A d ys ?c ?nb) \<le> ?c"
        by (rule final_best_le_start)
      ultimately show False using a by simp
    qed
    from Cons.IH [of ?s1] not_counted show ?thesis
      unfolding loop_outcomes_returning_skip [where A = A and d = d and y = y and s = s, OF skip] fb ds by auto
  next
    case nskip: False
    then have acc: "A y (d y)" by simp
    show ?thesis
    proof (cases "?nb = 0 \<or> d y < ?c")
      case better: True
      let ?s2 = "s\<lparr>explored := explored s + 1, best_move := ?mv, number_of_bests := 1\<rparr>"
      have fb: "final_best A d (y # ys) ?c ?nb = final_best A d ys (d y) 1"
        using better acc by auto
      have ds: "draw_space A d (y # ys) ?c ?nb = draw_space A d ys (d y) 1"
        using better acc by auto
      have le: "fst (final_best A d ys (d y) 1) \<le> d y"
        by (rule final_best_le_start) simp
      have old_out: "\<not> (0 < ?nb \<and> ?c = fst (final_best A d ys (d y) 1))"
        using better le by auto
      from Cons.IH [of ?s2] old_out acc show ?thesis
        unfolding loop_outcomes_returning_better [where A = A and d = d and y = y and s = s, OF acc better] fb ds by auto
    next
      case nbetter: False
      with nskip have nb: "0 < ?nb" and tie: "d y = ?c" by auto
      let ?s0 = "s\<lparr>explored := explored s + 1, best_move := ?mv, number_of_bests := ?nb + 1\<rparr>"
      let ?s1 = "s\<lparr>explored := explored s + 1, number_of_bests := ?nb + 1\<rparr>"
      let ?fb = "final_best A d ys ?c (?nb + 1)"
      let ?\<Omega> = "draw_space A d ys ?c (?nb + 1)"
      let ?cnt = "length (filter (\<lambda>x. x = m \<and> A x (d x) \<and> d x = fst ?fb) ys)"
      have fb: "final_best A d (y # ys) ?c ?nb = ?fb"
        using nb tie acc by auto
      have ds: "length (draw_space A d (y # ys) ?c ?nb) = (?nb + 1) * length ?\<Omega>"
        using nb tie acc
        by (simp add: length_concat comp_def sum_list_triv del: upt_Suc)
      have ih0: "loop_outcomes_returning A d ys ?s0 m * snd ?fb =
          ((if ?c = fst ?fb \<and> y = m then ?nb + 1 else 0) + ?cnt) * length ?\<Omega>"
        using Cons.IH [of ?s0] tie by simp
      have ih1: "loop_outcomes_returning A d ys ?s1 m * snd ?fb =
          ((if ?c = fst ?fb \<and> move (best_move s) = m then ?nb + 1 else 0) + ?cnt) * length ?\<Omega>"
        using Cons.IH [of ?s1] by simp
      have "loop_outcomes_returning A d (y # ys) s m * snd ?fb =
          loop_outcomes_returning A d ys ?s0 m * snd ?fb
          + ?nb * (loop_outcomes_returning A d ys ?s1 m * snd ?fb)"
        unfolding loop_outcomes_returning_tie [where A = A and d = d and y = y and s = s, OF acc nb tie] by (simp add: algebra_simps)
      also have "\<dots> =
          ((if ?c = fst ?fb \<and> move (best_move s) = m then ?nb else 0)
           + ((if ?c = fst ?fb \<and> y = m then 1 else 0) + ?cnt)) * ((?nb + 1) * length ?\<Omega>)"
        unfolding ih0 ih1 by (simp add: algebra_simps)
      finally show ?thesis
        unfolding fb ds using nb tie acc by (auto simp: algebra_simps)
    qed
  qed
qed

lemma count_list_distinct: "distinct xs \<Longrightarrow> x \<in> set xs \<Longrightarrow> count_list xs x = 1"
  by (induction xs) auto

text \<open>
  C2. Let \<open>m\<close> be an accepted move of the list whose delta cost is minimal among the
  accepted moves, and \<open>k\<close> the number of accepted moves of the list with that cost. Whatever
  the random source returns, \<^verbatim>\<open>SelectBest\<close> returns an accepted move of the list with that
  minimal cost (and has explored every move); \<^verbatim>\<open>RandomBest\<close> is the same function of the
  sampled moves. Of the equally likely outcomes of the random source, the share in which
  \<open>m\<close> is returned is the number of times \<open>m\<close> stands in the list over \<open>k\<close>: one in \<open>k\<close> for
  each of the \<open>k\<close> tied moves when the list has no move twice, as the full enumeration
  has none.
\<close>

theorem C2_select_best_minimum_and_uniform_ties:
  assumes m_in: "m \<in> set mvs" and m_acc: "AcceptMove m (delta m)"
    and m_min: "\<forall>x\<in>set mvs. AcceptMove x (delta x) \<longrightarrow> delta m \<le> delta x"
  shows "(\<forall>draws\<in>set (draw_space AcceptMove delta mvs (cost dflt) 0).
            \<exists>mv. SelectBest delta AcceptMove dflt empty_move mvs draws = Some (mv, length mvs)
               \<and> move mv \<in> set mvs \<and> AcceptMove (move mv) (cost mv)
               \<and> cost mv = delta (move mv) \<and> cost mv = delta m)
       \<and> RandomBest delta AcceptMove dflt empty_move mvs
           = SelectBest delta AcceptMove dflt empty_move mvs
       \<and> 0 < outcomes delta AcceptMove dflt mvs
       \<and> outcomes_returning delta AcceptMove dflt empty_move mvs m
           * length (filter (\<lambda>x. AcceptMove x (delta x) \<and> delta x = delta m) mvs)
           = count_list mvs m * outcomes delta AcceptMove dflt mvs
       \<and> (distinct mvs \<longrightarrow>
            outcomes_returning delta AcceptMove dflt empty_move mvs m
              * length (filter (\<lambda>x. AcceptMove x (delta x) \<and> delta x = delta m) mvs)
              = outcomes delta AcceptMove dflt mvs)"
proof -
  let ?s0 = "\<lparr>best_move = dflt, number_of_bests = 0, explored = 0\<rparr>"
  let ?fb = "final_best AcceptMove delta mvs (cost dflt) 0"
  let ?\<Omega> = "draw_space AcceptMove delta mvs (cost dflt) 0"
  let ?k = "length (filter (\<lambda>x. AcceptMove x (delta x) \<and> delta x = delta m) mvs)"
  have le: "fst ?fb \<le> delta m"
    using m_in m_acc by (rule final_best_le_accepted)
  from final_best_attained [of AcceptMove delta mvs "cost dflt" 0] m_in m_acc
  obtain x where "x \<in> set mvs" "AcceptMove x (delta x)" "delta x = fst ?fb"
    by auto
  with m_min le have cmin: "fst ?fb = delta m" by force
  have K: "snd ?fb = ?k"
    using final_best_count [of AcceptMove delta mvs "cost dflt" 0] cmin by simp
  from m_in m_acc have kpos: "0 < ?k"
    by (auto simp: filter_empty_conv)
  have run: "\<exists>mv. best_loop AcceptMove delta mvs draws ?s0 \<noteq> None
      \<and> SelectBest delta AcceptMove dflt empty_move mvs draws = Some (mv, length mvs)
      \<and> map_option best_move (best_loop AcceptMove delta mvs draws ?s0) = Some mv
      \<and> move mv \<in> set mvs \<and> AcceptMove (move mv) (cost mv)
      \<and> cost mv = delta (move mv) \<and> cost mv = delta m"
    if "draws \<in> set ?\<Omega>" for draws
  proof -
    from that have "draws \<in> set (draw_space AcceptMove delta mvs (cost (best_move ?s0))
        (number_of_bests ?s0))" by simp
    from best_loop_run [OF this]
    have "\<exists>s'. best_loop AcceptMove delta mvs draws ?s0 = Some s'
        \<and> number_of_bests s' = snd ?fb \<and> cost (best_move s') = fst ?fb
        \<and> explored s' = length mvs
        \<and> (best_move s' = dflt \<and> number_of_bests s' = 0
          \<or> move (best_move s') \<in> set mvs
            \<and> AcceptMove (move (best_move s')) (cost (best_move s'))
            \<and> cost (best_move s') = delta (move (best_move s')))"
      by simp
    then obtain s' where
      s': "best_loop AcceptMove delta mvs draws ?s0 = Some s'"
      "number_of_bests s' = snd ?fb" "cost (best_move s') = fst ?fb"
      "explored s' = length mvs"
      "best_move s' = dflt \<and> number_of_bests s' = 0
        \<or> move (best_move s') \<in> set mvs \<and> AcceptMove (move (best_move s')) (cost (best_move s'))
          \<and> cost (best_move s') = delta (move (best_move s'))"
      by blast
    from s'(2) K kpos have pos: "0 < number_of_bests s'" by simp
    with s'(5) have good: "move (best_move s') \<in> set mvs"
      "AcceptMove (move (best_move s')) (cost (best_move s'))"
      "cost (best_move s') = delta (move (best_move s'))"
      by auto
    from s'(1,4) pos
    have "SelectBest delta AcceptMove dflt empty_move mvs draws = Some (best_move s', length mvs)"
      by (simp add: SelectBest_def)
    with s'(1,3) good cmin show ?thesis by simp

  qed
  have part1: "\<forall>draws\<in>set ?\<Omega>.
      \<exists>mv. SelectBest delta AcceptMove dflt empty_move mvs draws = Some (mv, length mvs)
         \<and> move mv \<in> set mvs \<and> AcceptMove (move mv) (cost mv)
         \<and> cost mv = delta (move mv) \<and> cost mv = delta m"
    using run by blast
  have part2: "RandomBest delta AcceptMove dflt empty_move mvs
      = SelectBest delta AcceptMove dflt empty_move mvs"
    by (rule ext) (simp add: RandomBest_def SelectBest_def)
  have part3: "0 < outcomes delta AcceptMove dflt mvs"
    using draw_space_nonempty [of AcceptMove delta mvs "cost dflt" 0] by (simp add: outcomes_def)
  have same: "outcomes_returning delta AcceptMove dflt empty_move mvs m
      = loop_outcomes_returning AcceptMove delta mvs ?s0 m"
  proof -
    have "returned (SelectBest delta AcceptMove dflt empty_move mvs draws) m =
        (case best_loop AcceptMove delta mvs draws ?s0 of None \<Rightarrow> False
         | Some s' \<Rightarrow> move (best_move s') = m)"
      if "draws \<in> set ?\<Omega>" for draws
      using run [OF that] by (auto simp: returned_def)
    then show ?thesis
      unfolding outcomes_returning_def loop_outcomes_returning_def
      by (auto intro!: arg_cong [where f = length] filter_cong)
  qed
  have filt: "filter (\<lambda>x. x = m \<and> AcceptMove x (delta x) \<and> delta x = fst ?fb) mvs
      = filter ((=) m) mvs"
    using m_acc cmin by (auto intro: filter_cong)
  have part4: "outcomes_returning delta AcceptMove dflt empty_move mvs m * ?k
      = count_list mvs m * outcomes delta AcceptMove dflt mvs"
  proof -
    have "loop_outcomes_returning AcceptMove delta mvs ?s0 m * snd ?fb =
        length (filter (\<lambda>x. x = m \<and> AcceptMove x (delta x) \<and> delta x = fst ?fb) mvs)
          * length ?\<Omega>"
      using loop_outcomes_returning_count [of AcceptMove delta mvs ?s0 m] by simp
    then have "loop_outcomes_returning AcceptMove delta mvs ?s0 m * ?k =
        length (filter ((=) m) mvs) * length ?\<Omega>"
      by (simp only: K filt)
    then show ?thesis
      by (simp add: same outcomes_def count_list_eq_length_filter)
  qed
  have part5: "outcomes_returning delta AcceptMove dflt empty_move mvs m * ?k
      = outcomes delta AcceptMove dflt mvs" if "distinct mvs"
    using part4 count_list_distinct [OF that m_in] by simp
  from part1 part2 part3 part4 part5 show ?thesis by blast
qed

text \<open>
  On the four moves the random source has six outcomes, the returned move is the second
  in two of them, and the draws \<open>1, 0\<close> return the fourth.
\<close>

theorem C2_witness:
  "outcomes_returning tie_delta accept_all no_move no_move [1, 2, 3, 4] 2 * 3
     = outcomes tie_delta accept_all no_move [1, 2, 3, 4]
   \<and> outcomes tie_delta accept_all no_move [1, 2, 3, 4] = 6
   \<and> SelectBest tie_delta accept_all no_move no_move [1, 2, 3, 4] [1, 0]
     = Some (\<lparr>move = 4, cost = 5, is_valid = True\<rparr>, 4)"
proof -
  have 1: "(2::nat) \<in> set [1, 2, 3, 4]" by simp
  have 2: "accept_all 2 (tie_delta 2)" by (simp add: accept_all_def)
  have 3: "\<forall>x\<in>set [1, 2, 3, 4]. accept_all x (tie_delta x) \<longrightarrow> tie_delta 2 \<le> tie_delta x"
    by (simp add: tie_delta_def)
  have k: "length (filter (\<lambda>x. accept_all x (tie_delta x) \<and> tie_delta x = tie_delta 2)
      [1, 2, 3, 4]) = 3"
    by (simp add: tie_delta_def accept_all_def)
  have d: "distinct [1, 2, 3, 4 :: nat]" by simp
  from C2_select_best_minimum_and_uniform_ties
      [where m = 2 and mvs = "[1, 2, 3, 4]" and AcceptMove = accept_all and delta = tie_delta
        and dflt = no_move and empty_move = no_move, OF 1 2 3] d
  have "outcomes_returning tie_delta accept_all no_move no_move [1, 2, 3, 4] 2 * 3
     = outcomes tie_delta accept_all no_move [1, 2, 3, 4]"
    unfolding k by blast
  moreover have "outcomes tie_delta accept_all no_move [1, 2, 3, 4] = 6"
    by (simp add: outcomes_def tie_delta_def accept_all_def no_move_def upt_rec [of 0]
        upt_rec [of 1] upt_rec [of 2])
  moreover have "SelectBest tie_delta accept_all no_move no_move [1, 2, 3, 4] [1, 0]
     = Some (\<lparr>move = 4, cost = 5, is_valid = True\<rparr>, 4)"
    by (simp add: SelectBest_def tie_delta_def accept_all_def no_move_def Let_def)
  ultimately show ?thesis by blast
qed

section \<open>Properties of the Cartesian product\<close>

lemma state_at_0 [simp]: "state_at nhes st moves 0 = st"
  by (simp add: state_at_def)

lemma state_at_Suc:
  "state_at nhes st moves (Suc k) =
     MakeMove (nhes ! k) (state_at nhes st moves k) (RawMove (moves ! k))"
  by (simp add: state_at_def)

lemma state_at_cong:
  "(\<forall>j<k. RawMove (ms' ! j) = RawMove (ms ! j)) \<Longrightarrow>
   state_at nhes st ms' k = state_at nhes st ms k"
  by (induction k) (simp_all add: state_at_Suc)

lemma are_related_cong:
  "RawMove (ms' ! i) = RawMove (ms ! i) \<Longrightarrow> RawMove (ms' ! (i + 1)) = RawMove (ms ! (i + 1)) \<Longrightarrow>
   are_related i s ms' rel = are_related i s ms rel"
  by (simp add: are_related_def Let_def split: option.splits)

lemma same_but_refl [simp]: "same_but c xs xs"
  by (simp add: same_but_def)

lemma same_but_trans: "same_but c xs ys \<Longrightarrow> same_but c ys zs \<Longrightarrow> same_but c xs zs"
  by (simp add: same_but_def)

lemma same_but_set_move_at [simp]: "same_but c moves (set_move_at c moves mv)"
  by (simp add: same_but_def set_move_at_def)

lemma same_but_set_activity_at [simp]: "same_but c moves (set_activity_at c moves v)"
  by (simp add: same_but_def set_activity_at_def)

lemma RawMove_set_activity_at [simp]:
  "RawMove (set_activity_at c moves v ! j) = RawMove (moves ! j)"
  by (cases "c < length moves") (auto simp: set_activity_at_def nth_list_update not_less list_update_beyond)

lemma length_set_activity_at [simp]: "length (set_activity_at c moves v) = length moves"
  by (simp add: set_activity_at_def)

lemma length_set_move_at [simp]: "length (set_move_at c moves mv) = length moves"
  by (simp add: set_move_at_def)

lemma kick_inv_weaken:
  assumes "kick_inv nhes rel st c moves states" and "c' \<le> c"
    and "length moves' = length moves" and "length states' = length states"
    and "\<forall>j<c'. RawMove (moves' ! j) = RawMove (moves ! j)"
    and "\<forall>j<c'. states' ! j = states ! j"
  shows "kick_inv nhes rel st c' moves' states'"
proof -
  from assms(1) have lens: "length moves = length nhes" "length states = length nhes"
      "c \<le> length nhes"
    and sts: "\<And>i. i < c \<Longrightarrow> states ! i = state_at nhes st moves (i + 1)"
    and rels: "\<And>i. i + 1 < c \<Longrightarrow> are_related i (states ! i) moves rel"
    unfolding kick_inv_def by blast+
  have "states' ! i = state_at nhes st moves' (i + 1)" if "i < c'" for i
  proof -
    from that assms(2,6) sts [of i] have "states' ! i = state_at nhes st moves (i + 1)"
      by simp
    moreover from that assms(5) have "state_at nhes st moves' (i + 1) = state_at nhes st moves (i + 1)"
      by (intro state_at_cong) simp
    ultimately show ?thesis by simp
  qed
  moreover have "are_related i (states' ! i) moves' rel" if "i + 1 < c'" for i
  proof -
    from that assms(2) rels [of i] have "are_related i (states ! i) moves rel"
      by simp
    moreover from that assms(5) have "are_related i (states ! i) moves' rel
        = are_related i (states ! i) moves rel"
      by (intro are_related_cong) simp_all
    moreover from that assms(6) have "states' ! i = states ! i" by simp
    ultimately show ?thesis by simp
  qed
  ultimately show ?thesis
    using lens assms(2-4) by (simp add: kick_inv_def)
qed

lemma kick_inv_extend:
  assumes inv: "kick_inv nhes rel st c moves states" and c: "c < length nhes"
    and st_c: "states ! c = MakeMove (nhes ! c) (state_at nhes st moves c) (RawMove (moves ! c))"
    and rel_c: "0 < c \<longrightarrow> are_related (c - 1) (states ! (c - 1)) moves rel"
  shows "kick_inv nhes rel st (Suc c) moves states"
proof -
  have "states ! i = state_at nhes st moves (i + 1)" if "i < Suc c" for i
    using that inv st_c by (cases "i = c") (auto simp: kick_inv_def state_at_Suc)
  moreover have "are_related i (states ! i) moves rel" if "i + 1 < Suc c" for i
    using that inv rel_c by (cases "i + 1 = c") (auto simp: kick_inv_def)
  ultimately show ?thesis
    using inv c by (simp add: kick_inv_def)
qed

lemma kick_inv_final:
  "kick_inv nhes rel st (length nhes) moves states \<Longrightarrow>
   chain_related nhes rel st moves \<and> length moves = length nhes"
  by (auto simp: kick_inv_def chain_related_def)

text \<open>The start of a pass of the outer loops: the state of the level is reset.\<close>

lemma kick_inv_reset:
  assumes inv: "kick_inv nhes rel st c moves states" and c: "c < length nhes"
  defines "states1 \<equiv> states[c := (if 0 < c then states ! (c - 1) else st)]"
  shows "kick_inv nhes rel st c moves states1" and "states1 ! c = state_at nhes st moves c"
proof -
  show "kick_inv nhes rel st c moves states1"
    using inv by (rule kick_inv_weaken) (simp_all add: states1_def)
  from inv c have len: "c < length states" by (simp add: kick_inv_def)
  show "states1 ! c = state_at nhes st moves c"
  proof (cases "0 < c")
    case True
    with inv have "states ! (c - 1) = state_at nhes st moves c"
      by (simp add: kick_inv_def)
    with True len show ?thesis by (simp add: states1_def)
  next
    case False
    with len show ?thesis by (simp add: states1_def)
  qed
qed

text \<open>A level is done: its move is related to the one before, and is applied.\<close>

lemma kick_inv_forward:
  assumes inv: "kick_inv nhes rel st c moves states" and c: "c < length nhes"
    and st_c: "states ! c = state_at nhes st moves c"
    and same: "same_but c moves ms"
    and rel: "0 < c \<longrightarrow> are_related (c - 1) (states ! (c - 1)) ms rel"
  shows "kick_inv nhes rel st (Suc c) (set_activity_at c ms True)
           (states[c := MakeMove (nhes ! c) (states ! c) (RawMove (ms ! c))])"
proof -
  let ?ms = "set_activity_at c ms True"
  let ?states = "states[c := MakeMove (nhes ! c) (states ! c) (RawMove (ms ! c))]"
  from inv c have len: "c < length states" by (simp add: kick_inv_def)
  have inv': "kick_inv nhes rel st c ?ms ?states"
    using inv same by (intro kick_inv_weaken [OF inv]) (auto simp: same_but_def)
  have "state_at nhes st ?ms c = state_at nhes st moves c"
    using same by (intro state_at_cong) (auto simp: same_but_def)
  with st_c len have 1: "?states ! c
      = MakeMove (nhes ! c) (state_at nhes st ?ms c) (RawMove (?ms ! c))"
    by simp
  have 2: "0 < c \<longrightarrow> are_related (c - 1) (?states ! (c - 1)) ?ms rel"
  proof
    assume pos: "0 < c"
    with rel have "are_related (c - 1) (states ! (c - 1)) ms rel" by simp
    moreover have "are_related (c - 1) (states ! (c - 1)) ?ms rel
        = are_related (c - 1) (states ! (c - 1)) ms rel"
      by (intro are_related_cong) simp_all
    moreover from pos have "?states ! (c - 1) = states ! (c - 1)" by simp
    ultimately show "are_related (c - 1) (?states ! (c - 1)) ?ms rel" by simp
  qed
  from inv' c 1 2 show ?thesis by (rule kick_inv_extend)
qed

text \<open>A level is given up: the loop goes back to the level before.\<close>

lemma kick_inv_backward:
  assumes inv: "kick_inv nhes rel st c moves states" and same: "same_but c moves ms"
  shows "kick_inv nhes rel st (c - 1) (set_activity_at c ms False) states"
  using inv same by (intro kick_inv_weaken [OF inv]) (auto simp: same_but_def)

lemma search_ok_step:
  "search_ok rel c states (set_move_at c moves mv) r \<Longrightarrow> search_ok rel c states moves r"
  by (cases r) (auto simp: search_ok_def intro: same_but_trans [OF same_but_set_move_at])

lemma FirstMove_while_ok:
  "FirstMove_while n nhes rel c states moves = Some r \<Longrightarrow> search_ok rel c states moves r"
proof (induction n arbitrary: moves)
  case 0
  then show ?case by simp
next
  case (Suc n)
  show ?case
  proof (cases "0 < c \<and> \<not> are_related (c - 1) (states ! (c - 1)) moves rel")
    case False
    with Suc.prems show ?thesis by (auto simp: search_ok_def)
  next
    case True
    show ?thesis
    proof (cases "NextMove (nhes ! c) (states ! c) (RawMove (moves ! c))")
      case None
      with True Suc.prems show ?thesis by (auto simp: search_ok_def)
    next
      case (Some mv)
      with True Suc.prems
      have "FirstMove_while n nhes rel c states (set_move_at c moves mv) = Some r" by simp
      from Suc.IH [OF this] show ?thesis by (rule search_ok_step)
    qed
  qed
qed

lemma FirstMove_do_while_ok:
  "FirstMove_do_while n nhes rel c states moves = Some r \<Longrightarrow> search_ok rel c states moves r"
proof (induction n arbitrary: moves)
  case 0
  then show ?case by simp
next
  case (Suc n)
  show ?case
  proof (cases "NextMove (nhes ! c) (states ! c) (RawMove (moves ! c))")
    case None
    with Suc.prems show ?thesis by (auto simp: search_ok_def)
  next
    case (Some mv)
    let ?ms = "set_move_at c moves mv"
    show ?thesis
    proof (cases "0 < c \<and> \<not> are_related (c - 1) (states ! (c - 1)) ?ms rel")
      case True
      with Some Suc.prems have "FirstMove_do_while n nhes rel c states ?ms = Some r"
        by (simp add: Let_def)
      from Suc.IH [OF this] show ?thesis by (rule search_ok_step)
    next
      case False
      with Some Suc.prems have "r = Found ?ms" by (auto simp: Let_def)
      with False show ?thesis by (auto simp: search_ok_def)
    qed
  qed
qed

lemma RandomMove_while_ok:
  "RandomMove_while n nhes rel st c states initial_moves moves = Some r \<Longrightarrow>
   search_ok rel c states moves r"
proof (induction n arbitrary: moves)
  case 0
  then show ?case by simp
next
  case (Suc n)
  show ?case
  proof (cases "0 < c \<and> \<not> are_related (c - 1) (states ! (c - 1)) moves rel")
    case False
    with Suc.prems show ?thesis by (auto simp: search_ok_def)
  next
    case True
    show ?thesis
    proof (cases "next_or_first (nhes ! c) (states ! c) st (RawMove (moves ! c))")
      case None
      with True Suc.prems show ?thesis by (auto simp: search_ok_def)
    next
      case (Some mv)
      let ?ms = "set_move_at c moves mv"
      show ?thesis
      proof (cases "equal_at c ?ms initial_moves")
        case eq: True
        with Some True Suc.prems have "r = Exhausted ?ms" by (auto simp: Let_def)
        then show ?thesis by (simp add: search_ok_def)
      next
        case neq: False
        with Some True Suc.prems
        have "RandomMove_while n nhes rel st c states initial_moves ?ms = Some r"
          by (simp add: Let_def)
        from Suc.IH [OF this] show ?thesis by (rule search_ok_step)
      qed
    qed
  qed
qed

lemma RandomMove_do_while_ok:
  "RandomMove_do_while n nhes rel st c states initial_moves moves = Some r \<Longrightarrow>
   search_ok rel c states moves r"
proof (induction n arbitrary: moves)
  case 0
  then show ?case by simp
next
  case (Suc n)
  show ?case
  proof (cases "next_or_first (nhes ! c) (states ! c) st (RawMove (moves ! c))")
    case None
    with Suc.prems show ?thesis by (auto simp: search_ok_def)
  next
    case (Some mv)
    let ?ms = "set_move_at c moves mv"
    show ?thesis
    proof (cases "equal_at c ?ms initial_moves")
      case eq: True
      with Some Suc.prems have "r = Exhausted ?ms" by (auto simp: Let_def)
      then show ?thesis by (simp add: search_ok_def)
    next
      case neq: False
      show ?thesis
      proof (cases "0 < c \<and> \<not> are_related (c - 1) (states ! (c - 1)) ?ms rel")
        case True
        with neq Some Suc.prems
        have "RandomMove_do_while n nhes rel st c states initial_moves ?ms = Some r"
          by (simp add: Let_def)
        from Suc.IH [OF this] show ?thesis by (rule search_ok_step)
      next
        case False
        with neq Some Suc.prems have "r = Found ?ms" by (auto simp: Let_def)
        with False show ?thesis by (auto simp: search_ok_def)
      qed
    qed
  qed
qed

lemma FirstMove_loop_chain:
  "FirstMove_loop n nhes rel st cur bt moves states = Some (Inr res) \<Longrightarrow> - 1 \<le> cur \<Longrightarrow>
   kick_inv nhes rel st (nat cur) moves states \<Longrightarrow>
   chain_related nhes rel st res \<and> length res = length nhes"
proof (induction n arbitrary: cur bt moves states)
  case 0
  then show ?case by simp
next
  case (Suc n)
  note res = Suc.prems(1) and inv = Suc.prems(3)
  show ?case
  proof (cases "cur < int (length nhes)")
    case False
    with res have "res = moves" by simp
    moreover from inv have "nat cur \<le> length nhes" unfolding kick_inv_def by blast
    with False have "nat cur = length nhes" by linarith
    ultimately show ?thesis using inv kick_inv_final by metis
  next
    case lt: True
    with res have ne: "cur \<noteq> - 1" by auto
    with Suc.prems(2) have nonneg: "0 \<le> cur" by simp
    define c where "c = nat cur"
    define states1 where "states1 = states[c := (if 0 < cur then states ! (c - 1) else st)]"
    from lt nonneg have c_lt: "c < length nhes" by (simp add: c_def)
    have pos: "(0 < cur) = (0 < c)" by (simp add: c_def)
    from inv have inv_c: "kick_inv nhes rel st c moves states" by (simp add: c_def)
    have inv1: "kick_inv nhes rel st c moves states1"
      and st_c: "states1 ! c = state_at nhes st moves c"
      using kick_inv_reset [OF inv_c c_lt] by (simp_all add: states1_def pos)
    have fwd: "chain_related nhes rel st res \<and> length res = length nhes"
      if "search_ok rel c states1 moves (Found ms)"
        and "FirstMove_loop n nhes rel st (cur + 1) False (set_activity_at c ms True)
          (states1[c := MakeMove (nhes ! c) (states1 ! c) (RawMove (ms ! c))]) = Some (Inr res)"
      for ms
    proof -
      from that(1) have "same_but c moves ms"
        and "0 < c \<longrightarrow> are_related (c - 1) (states1 ! (c - 1)) ms rel"
        by (simp_all add: search_ok_def)
      with inv1 c_lt st_c
      have "kick_inv nhes rel st (Suc c) (set_activity_at c ms True)
          (states1[c := MakeMove (nhes ! c) (states1 ! c) (RawMove (ms ! c))])"
        by (intro kick_inv_forward)
      moreover from nonneg have "nat (cur + 1) = Suc c" by (simp add: c_def)
      ultimately show ?thesis using Suc.IH [OF that(2)] nonneg by simp
    qed
    have bwd: "chain_related nhes rel st res \<and> length res = length nhes"
      if "same_but c moves ms"
        and "FirstMove_loop n nhes rel st (cur - 1) True (set_activity_at c ms False) states1
          = Some (Inr res)"
      for ms
    proof -
      from inv1 that(1)
      have "kick_inv nhes rel st (c - 1) (set_activity_at c ms False) states1"
        by (rule kick_inv_backward)
      moreover from nonneg have "nat (cur - 1) = c - 1" by (simp add: c_def)
      ultimately show ?thesis using Suc.IH [OF that(2)] nonneg by simp
    qed
    have after: "chain_related nhes rel st res \<and> length res = length nhes"
      if ok: "search_ok rel c states1 moves r"
        and cont: "(case r of
            Found ms \<Rightarrow>
              FirstMove_loop n nhes rel st (cur + 1) False (set_activity_at c ms True)
                (states1[c := MakeMove (nhes ! c) (states1 ! c) (RawMove (ms ! c))])
          | Exhausted ms \<Rightarrow>
              FirstMove_loop n nhes rel st (cur - 1) True (set_activity_at c ms False) states1
          | Threw ms \<Rightarrow> thrown ms) = Some (Inr res)"
        and thrown: "\<And>ms. thrown ms = Some (Inr res) \<Longrightarrow>
            FirstMove_loop n nhes rel st (cur - 1) True (set_activity_at c ms False) states1
              = Some (Inr res)"
      for r thrown
    proof (cases r)
      case (Found ms)
      with ok cont show ?thesis by (intro fwd [of ms]) simp_all
    next
      case (Exhausted ms)
      with ok cont show ?thesis by (intro bwd [of ms]) (simp_all add: search_ok_def)
    next
      case (Threw ms)
      with ok cont thrown [of ms] show ?thesis
        by (intro bwd [of ms]) (simp_all add: search_ok_def)
    qed
    show ?thesis
    proof (cases bt)
      case False
      show ?thesis
      proof (cases "FirstMove (nhes ! c) st")
        case None
        with res lt ne False
        have "FirstMove_loop n nhes rel st (cur - 1) True (set_activity_at c moves False) states1
            = Some (Inr res)"
          unfolding c_def states1_def by (simp add: Let_def split del: if_split)
        with same_but_refl show ?thesis by (rule bwd)
      next
        case (Some mv)
        show ?thesis
        proof (cases "FirstMove_while n nhes rel c states1 (set_move_at c moves mv)")
          case None
          with Some res lt ne False show ?thesis
            unfolding c_def states1_def by (simp add: Let_def split del: if_split)
        next
          case inner: (Some r)
          from FirstMove_while_ok [OF inner] have "search_ok rel c states1 moves r"
            by (rule search_ok_step)
          moreover from inner Some res lt ne False
          have "(case r of
              Found ms \<Rightarrow>
                FirstMove_loop n nhes rel st (cur + 1) False (set_activity_at c ms True)
                  (states1[c := MakeMove (nhes ! c) (states1 ! c) (RawMove (ms ! c))])
            | Exhausted ms \<Rightarrow>
                FirstMove_loop n nhes rel st (cur - 1) True (set_activity_at c ms False) states1
            | Threw ms \<Rightarrow>
                FirstMove_loop n nhes rel st (cur - 1) True (set_activity_at c ms False) states1)
            = Some (Inr res)"
            unfolding c_def states1_def by (simp add: Let_def split del: if_split)
          ultimately show ?thesis by (rule after) simp
        qed
      qed
    next
      case True
      show ?thesis
      proof (cases "FirstMove_do_while n nhes rel c states1 moves")
        case None
        with res lt ne True show ?thesis
          unfolding c_def states1_def by (simp add: Let_def split del: if_split)
      next
        case inner: (Some r)
        from FirstMove_do_while_ok [OF inner] have "search_ok rel c states1 moves r" .
        moreover from inner res lt ne True
        have "(case r of
            Found ms \<Rightarrow>
              FirstMove_loop n nhes rel st (cur + 1) False (set_activity_at c ms True)
                (states1[c := MakeMove (nhes ! c) (states1 ! c) (RawMove (ms ! c))])
          | Exhausted ms \<Rightarrow>
              FirstMove_loop n nhes rel st (cur - 1) True (set_activity_at c ms False) states1
          | Threw ms \<Rightarrow> Some (Inl EmptyNeighborhood))
          = Some (Inr res)"
          unfolding c_def states1_def by (simp add: Let_def split del: if_split)
        ultimately show ?thesis by (rule after) simp
      qed
    qed
  qed
qed

lemma RandomMove_loop_chain:
  "RandomMove_loop n nhes rel st cur bt moves states initial_moves initial_set rng
     = Some (Inr res, rng') \<Longrightarrow> - 1 \<le> cur \<Longrightarrow>
   kick_inv nhes rel st (nat cur) moves states \<Longrightarrow>
   chain_related nhes rel st res \<and> length res = length nhes"
proof (induction n arbitrary: cur bt moves states initial_moves initial_set rng)
  case 0
  then show ?case by simp
next
  case (Suc n)
  note res = Suc.prems(1) and inv = Suc.prems(3)
  show ?case
  proof (cases "cur < int (length nhes)")
    case False
    with res have "res = moves" by simp
    moreover from inv have "nat cur \<le> length nhes" unfolding kick_inv_def by blast
    with False have "nat cur = length nhes" by linarith
    ultimately show ?thesis using inv kick_inv_final by metis
  next
    case lt: True
    with res have ne: "cur \<noteq> - 1" by auto
    with Suc.prems(2) have nonneg: "0 \<le> cur" by simp
    define c where "c = nat cur"
    define states1 where "states1 = states[c := (if 0 < cur then states ! (c - 1) else st)]"
    from lt nonneg have c_lt: "c < length nhes" by (simp add: c_def)
    have pos: "(0 < cur) = (0 < c)" by (simp add: c_def)
    from inv have inv_c: "kick_inv nhes rel st c moves states" by (simp add: c_def)
    have inv1: "kick_inv nhes rel st c moves states1"
      and st_c: "states1 ! c = state_at nhes st moves c"
      using kick_inv_reset [OF inv_c c_lt] by (simp_all add: states1_def pos)
    have fwd: "chain_related nhes rel st res \<and> length res = length nhes"
      if "search_ok rel c states1 moves (Found ms)"
        and "RandomMove_loop n nhes rel st (cur + 1) False (set_activity_at c ms True)
          (states1[c := MakeMove (nhes ! c) (states1 ! c) (RawMove (ms ! c))]) im is r
          = Some (Inr res, rng')"
      for ms im "is" r
    proof -
      from that(1) have "same_but c moves ms"
        and "0 < c \<longrightarrow> are_related (c - 1) (states1 ! (c - 1)) ms rel"
        by (simp_all add: search_ok_def)
      with inv1 c_lt st_c
      have "kick_inv nhes rel st (Suc c) (set_activity_at c ms True)
          (states1[c := MakeMove (nhes ! c) (states1 ! c) (RawMove (ms ! c))])"
        by (intro kick_inv_forward)
      moreover from nonneg have "nat (cur + 1) = Suc c" by (simp add: c_def)
      ultimately show ?thesis using Suc.IH [OF that(2)] nonneg by simp
    qed
    have bwd: "chain_related nhes rel st res \<and> length res = length nhes"
      if "same_but c moves ms"
        and "RandomMove_loop n nhes rel st (cur - 1) True (set_activity_at c ms False) states1
          im is r = Some (Inr res, rng')"
      for ms im "is" r
    proof -
      from inv1 that(1)
      have "kick_inv nhes rel st (c - 1) (set_activity_at c ms False) states1"
        by (rule kick_inv_backward)
      moreover from nonneg have "nat (cur - 1) = c - 1" by (simp add: c_def)
      ultimately show ?thesis using Suc.IH [OF that(2)] nonneg by simp
    qed
    have after: "chain_related nhes rel st res \<and> length res = length nhes"
      if ok: "search_ok rel c states1 moves r"
        and cont: "(case r of
            Found ms \<Rightarrow>
              RandomMove_loop n nhes rel st (cur + 1) False (set_activity_at c ms True)
                (states1[c := MakeMove (nhes ! c) (states1 ! c) (RawMove (ms ! c))]) im is g
          | Exhausted ms \<Rightarrow>
              RandomMove_loop n nhes rel st (cur - 1) True (set_activity_at c ms False) states1
                im is g
          | Threw ms \<Rightarrow> thrown ms) = Some (Inr res, rng')"
        and thrown: "\<And>ms. thrown ms = Some (Inr res, rng') \<Longrightarrow>
            RandomMove_loop n nhes rel st (cur - 1) True (set_activity_at c ms False) states1
              im is g = Some (Inr res, rng')"
      for r thrown im "is" g
    proof (cases r)
      case (Found ms)
      with ok cont show ?thesis by (intro fwd [of ms im "is" g]) simp_all
    next
      case (Exhausted ms)
      with ok cont show ?thesis by (intro bwd [of ms im "is" g]) (simp_all add: search_ok_def)
    next
      case (Threw ms)
      with ok cont thrown [of ms] show ?thesis
        by (intro bwd [of ms im "is" g]) (simp_all add: search_ok_def)
    qed
    show ?thesis
    proof (cases bt)
      case False
      obtain drawn g where draw: "RandomMove (nhes ! c) (states1 ! c) rng = (drawn, g)"
        by (cases "RandomMove (nhes ! c) (states1 ! c) rng") auto
      show ?thesis
      proof (cases drawn)
        case None
        with draw res lt ne False
        have "RandomMove_loop n nhes rel st (cur - 1) True (set_activity_at c moves False) states1
            initial_moves initial_set g = Some (Inr res, rng')"
          unfolding c_def states1_def by (simp add: Let_def split del: if_split)
        with same_but_refl show ?thesis by (rule bwd)
      next
        case (Some mv)
        define im where "im = (if \<not> initial_set ! c
            then copy_move_at c initial_moves (set_move_at c moves mv) else initial_moves)"
        define iset where "iset = (if \<not> initial_set ! c then initial_set[c := True]
            else initial_set)"
        show ?thesis
        proof (cases "RandomMove_while n nhes rel st c states1 im (set_move_at c moves mv)")
          case None
          with Some draw res lt ne False show ?thesis
            unfolding c_def states1_def im_def iset_def
            by (simp add: Let_def split del: if_split)
        next
          case inner: (Some r)
          from RandomMove_while_ok [OF inner] have "search_ok rel c states1 moves r"
            by (rule search_ok_step)
          moreover from inner Some draw res lt ne False
          have "(case r of
              Found ms \<Rightarrow>
                RandomMove_loop n nhes rel st (cur + 1) False (set_activity_at c ms True)
                  (states1[c := MakeMove (nhes ! c) (states1 ! c) (RawMove (ms ! c))]) im iset g
            | Exhausted ms \<Rightarrow>
                RandomMove_loop n nhes rel st (cur - 1) True (set_activity_at c ms False) states1
                  im iset g
            | Threw ms \<Rightarrow>
                RandomMove_loop n nhes rel st (cur - 1) True (set_activity_at c ms False) states1
                  im iset g)
            = Some (Inr res, rng')"
            unfolding c_def states1_def im_def iset_def
            by (simp add: Let_def split del: if_split)
          ultimately show ?thesis by (rule after) simp
        qed
      qed
    next
      case True
      show ?thesis
      proof (cases "RandomMove_do_while n nhes rel st c states1 initial_moves moves")
        case None
        with res lt ne True show ?thesis
          unfolding c_def states1_def by (simp add: Let_def split del: if_split)
      next
        case inner: (Some r)
        from RandomMove_do_while_ok [OF inner] have "search_ok rel c states1 moves r" .
        moreover from inner res lt ne True
        have "(case r of
            Found ms \<Rightarrow>
              RandomMove_loop n nhes rel st (cur + 1) False (set_activity_at c ms True)
                (states1[c := MakeMove (nhes ! c) (states1 ! c) (RawMove (ms ! c))])
                initial_moves initial_set rng
          | Exhausted ms \<Rightarrow>
              RandomMove_loop n nhes rel st (cur - 1) True (set_activity_at c ms False) states1
                initial_moves initial_set rng
          | Threw ms \<Rightarrow> Some (Inl EmptyNeighborhood, rng))
          = Some (Inr res, rng')"
          unfolding c_def states1_def by (simp add: Let_def split del: if_split)
        ultimately show ?thesis by (rule after) simp
      qed
    qed
  qed
qed

lemma delta_loop:
  "k \<le> length nhes \<Longrightarrow>
   \<exists>sts. foldl (delta_step nhes st moves) (CostStructure0, replicate (length nhes) st) [0..<k]
           = (foldl cs_plus CostStructure0
                (map (\<lambda>i. DeltaCostFunctionComponents (nhes ! i) (state_at nhes st moves i)
                        (RawMove (moves ! i))) [0..<k]), sts)
       \<and> length sts = length nhes
       \<and> (0 < k \<longrightarrow> sts ! (k - 1) = state_at nhes st moves k)"
proof (induction k)
  case 0
  then show ?case by simp
next
  case (Suc k)
  then obtain sts where
    run: "foldl (delta_step nhes st moves) (CostStructure0, replicate (length nhes) st) [0..<k]
           = (foldl cs_plus CostStructure0
                (map (\<lambda>i. DeltaCostFunctionComponents (nhes ! i) (state_at nhes st moves i)
                        (RawMove (moves ! i))) [0..<k]), sts)"
    and len: "length sts = length nhes"
    and last: "0 < k \<longrightarrow> sts ! (k - 1) = state_at nhes st moves k"
    by auto
  let ?sts1 = "sts[k := (if 0 < k then sts ! (k - 1) else st)]"
  from Suc.prems len have k: "k < length sts" by simp
  with last have at_k: "?sts1 ! k = state_at nhes st moves k"
    by (cases "0 < k") simp_all
  have "delta_step nhes st moves
      (foldl cs_plus CostStructure0
         (map (\<lambda>i. DeltaCostFunctionComponents (nhes ! i) (state_at nhes st moves i)
                 (RawMove (moves ! i))) [0..<k]), sts) k
    = (foldl cs_plus CostStructure0
         (map (\<lambda>i. DeltaCostFunctionComponents (nhes ! i) (state_at nhes st moves i)
                 (RawMove (moves ! i))) [0..<Suc k]),
       ?sts1[k := MakeMove (nhes ! k) (?sts1 ! k) (RawMove (moves ! k))])"
    unfolding delta_step_def Let_def fst_conv snd_conv at_k
    by (simp add: cs_plus_def)
  moreover have "(?sts1[k := MakeMove (nhes ! k) (?sts1 ! k) (RawMove (moves ! k))]) ! k
      = state_at nhes st moves (Suc k)"
    using k unfolding at_k by (simp add: state_at_Suc)
  ultimately show ?case
    using run len by (intro exI [of _ "?sts1[k := MakeMove (nhes ! k) (?sts1 ! k) (RawMove (moves ! k))]"])
      simp
qed

lemma Cartesian_delta_is_sum:
  "Cartesian_DeltaCostFunctionComponents nhes st moves = delta_sum nhes st moves"
  using delta_loop [of "length nhes" nhes st moves]
  by (auto simp: Cartesian_DeltaCostFunctionComponents_def delta_sum_def)

text \<open>
  C3. A chain that the Cartesian product's \<^verbatim>\<open>FirstMove\<close> or \<^verbatim>\<open>RandomMove\<close> returns has
  one move per base, every move related to the one before (by the registered predicate of
  the level, handed the intermediate state in which the earlier of the two moves has been
  applied; a level with no predicate relates any two moves), and the composite's delta
  cost of the chain is the sum of the bases' delta costs, the \<open>i\<close>-th on the input state
  with the moves \<open>0, \<dots>, i - 1\<close> applied.
\<close>

theorem C3_cartesian_chain_related_and_delta_sum:
  assumes len: "length moves = length nhes"
    and produced: "Cartesian_FirstMove n nhes rel st moves = Some (Inr chain)
      \<or> (\<exists>rng'. Cartesian_RandomMove n nhes rel dflt st moves rng = Some (Inr chain, rng'))"
  shows "length chain = length nhes
    \<and> (\<forall>i. i + 1 < length nhes \<longrightarrow>
          are_related i (state_at nhes st chain (i + 1)) chain rel)
    \<and> (\<forall>i. RelatedFunc rel i = None \<and> RelatedInputStateFunc rel i = None \<longrightarrow>
          (\<forall>s ms. are_related i s ms rel))
    \<and> Cartesian_DeltaCostFunctionComponents nhes st chain
        = foldl cs_plus CostStructure0
            (map (\<lambda>i. DeltaCostFunctionComponents (nhes ! i) (state_at nhes st chain i)
                    (RawMove (chain ! i)))
               [0..<length nhes])"
proof -
  from len have inv0: "kick_inv nhes rel st (nat 0) moves (replicate (length nhes) st)"
    by (simp add: kick_inv_def)
  from produced have "chain_related nhes rel st chain \<and> length chain = length nhes"
  proof
    assume "Cartesian_FirstMove n nhes rel st moves = Some (Inr chain)"
    then have "FirstMove_loop n nhes rel st 0 False moves (replicate (length nhes) st)
        = Some (Inr chain)"
      by (simp add: Cartesian_FirstMove_def)
    from FirstMove_loop_chain [OF this _ inv0] show ?thesis by simp
  next
    assume "\<exists>rng'. Cartesian_RandomMove n nhes rel dflt st moves rng = Some (Inr chain, rng')"
    then obtain rng' where
      "RandomMove_loop n nhes rel st 0 False moves (replicate (length nhes) st)
         (replicate (length nhes) \<lparr>RawMove = dflt, active = False\<rparr>)
         (replicate (length nhes) False) rng = Some (Inr chain, rng')"
      by (auto simp: Cartesian_RandomMove_def)
    from RandomMove_loop_chain [OF this _ inv0] show ?thesis by simp
  qed
  moreover have "are_related i s ms rel"
    if "RelatedFunc rel i = None \<and> RelatedInputStateFunc rel i = None" for i s ms
    using that by (simp add: are_related_def)
  moreover note Cartesian_delta_is_sum [of nhes st chain]
  ultimately show ?thesis
    by (simp add: chain_related_def delta_sum_def)
qed

text \<open>
  On the three bits, from the state with no bit set: \<^verbatim>\<open>FirstMove\<close> returns the chain that
  flips bit \<open>0\<close> and then bit \<open>1\<close>; the two moves are related, and the composite's delta
  cost is two bits more.
\<close>

theorem C3_witness:
  "Cartesian_FirstMove 5 [flip_explorer, flip_explorer] different_bits [False, False, False]
     [\<lparr>RawMove = 0, active = False\<rparr>, \<lparr>RawMove = 0, active = False\<rparr>]
   = Some (Inr [\<lparr>RawMove = 0, active = True\<rparr>, \<lparr>RawMove = 1, active = True\<rparr>])
   \<and> Cartesian_RandomMove 5 [flip_explorer, flip_explorer] different_bits 0
       [False, False, False]
       [\<lparr>RawMove = 0, active = False\<rparr>, \<lparr>RawMove = 0, active = False\<rparr>] 3
     = Some (Inr [\<lparr>RawMove = 0, active = True\<rparr>, \<lparr>RawMove = 1, active = True\<rparr>], 0)
   \<and> are_related 0
       (state_at [flip_explorer, flip_explorer] [False, False, False]
          [\<lparr>RawMove = 0, active = True\<rparr>, \<lparr>RawMove = 1, active = True\<rparr>] 1)
       [\<lparr>RawMove = 0, active = True\<rparr>, \<lparr>RawMove = 1, active = True\<rparr>] different_bits
   \<and> Cartesian_DeltaCostFunctionComponents [flip_explorer, flip_explorer]
       [False, False, False]
       [\<lparr>RawMove = 0, active = True\<rparr>, \<lparr>RawMove = 1, active = True\<rparr>]
     = \<lparr>total_cf = 2, violations = 0, objective = 2, all_components = [2],
        weighted = 0, is_weighted = False\<rparr>"
proof -
  let ?nhes = "[flip_explorer, flip_explorer]"
  let ?st = "[False, False, False]"
  let ?moves = "[\<lparr>RawMove = 0 :: nat, active = False\<rparr>, \<lparr>RawMove = 0, active = False\<rparr>]"
  let ?chain = "[\<lparr>RawMove = 0 :: nat, active = True\<rparr>, \<lparr>RawMove = 1, active = True\<rparr>]"
  have first: "Cartesian_FirstMove 5 ?nhes different_bits ?st ?moves = Some (Inr ?chain)"
    by code_simp
  have random: "Cartesian_RandomMove 5 ?nhes different_bits 0 ?st ?moves 3
      = Some (Inr ?chain, 0)"
    by code_simp
  have len: "length ?moves = length ?nhes" by simp
  from first have produced: "Cartesian_FirstMove 5 ?nhes different_bits ?st ?moves
      = Some (Inr ?chain)
    \<or> (\<exists>rng'. Cartesian_RandomMove 5 ?nhes different_bits 0 ?st ?moves (3::nat)
          = Some (Inr ?chain, rng'))"
    by (rule disjI1)
  note C3 = C3_cartesian_chain_related_and_delta_sum [OF len produced]
  from C3 have "\<forall>i. i + 1 < length ?nhes \<longrightarrow>
      are_related i (state_at ?nhes ?st ?chain (i + 1)) ?chain different_bits"
    by blast
  then have related: "are_related 0 (state_at ?nhes ?st ?chain 1) ?chain different_bits"
    by simp
  from C3 have "Cartesian_DeltaCostFunctionComponents ?nhes ?st ?chain
      = foldl cs_plus CostStructure0
          (map (\<lambda>i. DeltaCostFunctionComponents (?nhes ! i) (state_at ?nhes ?st ?chain i)
                  (RawMove (?chain ! i)))
             [0..<length ?nhes])"
    by blast
  also have "\<dots> = \<lparr>total_cf = 2, violations = 0, objective = 2, all_components = [2],
      weighted = 0, is_weighted = False\<rparr>"
    by code_simp
  finally have delta: "Cartesian_DeltaCostFunctionComponents ?nhes ?st ?chain
      = \<lparr>total_cf = 2, violations = 0, objective = 2, all_components = [2],
         weighted = 0, is_weighted = False\<rparr>" .
  from first random related delta show ?thesis by blast
qed

subsection \<open>\<^verbatim>\<open>RandomMove\<close> on an empty product\<close>

text \<open>
  Two bases with the single move \<open>0\<close> each and a relatedness predicate that never holds:
  the product has no chain. \<^verbatim>\<open>copy_move_at\<close> leaves \<^verbatim>\<open>initial_moves\<close> as it was, every
  element inactive. At level \<open>1\<close> the enumeration comes back to an inactive element and
  the comparison with the inactive initial element holds at once, so the level is given
  up; at level \<open>0\<close>, when backtracking, the element is active and the comparison with
  the inactive initial element fails, so level \<open>0\<close> goes forward again.
\<close>

lemma single_explorer_sels:
  "FirstMove single_explorer st = Some 0"
  "NextMove single_explorer st mv = None"
  "RandomMove single_explorer st g = (Some 0, g)"
  "MakeMove single_explorer st mv = st"
  by (simp_all add: single_explorer_def)

lemma copy_move_at_target: "copy_move_at level target source = target"
  by (simp add: copy_move_at_def)

lemma RandomMove_while_level_0:
  "RandomMove_while (Suc k) nhes rel st 0 states initial_moves moves = Some (Found moves)"
  by simp

lemma RandomMove_while_level_1:
  "RandomMove_while (Suc k) [single_explorer, single_explorer] never_related 0 1 [0, 0]
     [\<lparr>RawMove = 0, active = False\<rparr>, \<lparr>RawMove = 0, active = False\<rparr>]
     [\<lparr>RawMove = 0, active = True\<rparr>, \<lparr>RawMove = 0, active = False\<rparr>]
   = Some (Exhausted [\<lparr>RawMove = 0, active = True\<rparr>, \<lparr>RawMove = 0, active = False\<rparr>])"
  by (simp add: single_explorer_def never_related_def are_related_def next_or_first_def
      set_move_at_def equal_at_def ActiveMove_eq_def)

lemma RandomMove_do_while_level_0:
  "RandomMove_do_while (Suc k) [single_explorer, single_explorer] never_related 0 0 [0, 0]
     [\<lparr>RawMove = 0, active = False\<rparr>, \<lparr>RawMove = 0, active = False\<rparr>]
     [\<lparr>RawMove = 0, active = True\<rparr>, \<lparr>RawMove = 0, active = False\<rparr>]
   = Some (Found [\<lparr>RawMove = 0, active = True\<rparr>, \<lparr>RawMove = 0, active = False\<rparr>])"
  by (simp add: single_explorer_def next_or_first_def set_move_at_def equal_at_def
      ActiveMove_eq_def)

text \<open>The two configurations between which the loop alternates.\<close>

lemma RandomMove_loop_cycle:
  "RandomMove_loop n [single_explorer, single_explorer] never_related 0 0 True
     [\<lparr>RawMove = 0, active = True\<rparr>, \<lparr>RawMove = 0, active = False\<rparr>] [0, 0]
     [\<lparr>RawMove = 0, active = False\<rparr>, \<lparr>RawMove = 0, active = False\<rparr>] [True, True] ()
   = None
   \<and> RandomMove_loop n [single_explorer, single_explorer] never_related 0 1 False
     [\<lparr>RawMove = 0, active = True\<rparr>, \<lparr>RawMove = 0, active = False\<rparr>] [0, 0]
     [\<lparr>RawMove = 0, active = False\<rparr>, \<lparr>RawMove = 0, active = False\<rparr>] [True, True] ()
   = None"
proof (induction n)
  case 0
  show ?case by simp
next
  case (Suc n)
  note IH = Suc.IH
  show ?case
  proof (cases n)
    case 0
    then show ?thesis by (simp add: single_explorer_def set_move_at_def)
  next
    case (Suc k)
    have bwd: "RandomMove_loop (Suc n) [single_explorer, single_explorer] never_related 0 0 True
        [\<lparr>RawMove = 0, active = True\<rparr>, \<lparr>RawMove = 0, active = False\<rparr>] [0, 0]
        [\<lparr>RawMove = 0, active = False\<rparr>, \<lparr>RawMove = 0, active = False\<rparr>] [True, True] ()
      = RandomMove_loop n [single_explorer, single_explorer] never_related 0 1 False
        [\<lparr>RawMove = 0, active = True\<rparr>, \<lparr>RawMove = 0, active = False\<rparr>] [0, 0]
        [\<lparr>RawMove = 0, active = False\<rparr>, \<lparr>RawMove = 0, active = False\<rparr>] [True, True] ()"
      unfolding Suc
      by (subst RandomMove_loop.simps(2))
        (simp add: RandomMove_do_while_level_0 set_activity_at_def single_explorer_sels
          del: RandomMove_do_while.simps RandomMove_loop.simps)
    have fwd: "RandomMove_loop (Suc n) [single_explorer, single_explorer] never_related 0 1
        False
        [\<lparr>RawMove = 0, active = True\<rparr>, \<lparr>RawMove = 0, active = False\<rparr>] [0, 0]
        [\<lparr>RawMove = 0, active = False\<rparr>, \<lparr>RawMove = 0, active = False\<rparr>] [True, True] ()
      = RandomMove_loop n [single_explorer, single_explorer] never_related 0 0 True
        [\<lparr>RawMove = 0, active = True\<rparr>, \<lparr>RawMove = 0, active = False\<rparr>] [0, 0]
        [\<lparr>RawMove = 0, active = False\<rparr>, \<lparr>RawMove = 0, active = False\<rparr>] [True, True] ()"
      unfolding Suc
      by (subst RandomMove_loop.simps(2))
        (simp add: RandomMove_while_level_1 [unfolded One_nat_def] set_activity_at_def
          set_move_at_def single_explorer_sels Let_def
          del: RandomMove_while.simps RandomMove_loop.simps)
    from bwd fwd IH show ?thesis by simp
  qed
qed

text \<open>Level \<open>1\<close> when it is entered for the first time, after level \<open>0\<close> has drawn its move.\<close>

lemma RandomMove_loop_level_1_first:
  "RandomMove_loop n [single_explorer, single_explorer] never_related 0 1 False
     [\<lparr>RawMove = 0, active = True\<rparr>, \<lparr>RawMove = 0, active = False\<rparr>] [0, 0]
     [\<lparr>RawMove = 0, active = False\<rparr>, \<lparr>RawMove = 0, active = False\<rparr>] [True, False] ()
   = None"
proof (cases n)
  case 0
  then show ?thesis by simp
next
  case n: (Suc m)
  show ?thesis
  proof (cases m)
    case 0
    with n show ?thesis by (simp add: single_explorer_sels set_move_at_def)
  next
    case m: (Suc k)
    have "RandomMove_loop n [single_explorer, single_explorer] never_related 0 1 False
        [\<lparr>RawMove = 0, active = True\<rparr>, \<lparr>RawMove = 0, active = False\<rparr>] [0, 0]
        [\<lparr>RawMove = 0, active = False\<rparr>, \<lparr>RawMove = 0, active = False\<rparr>] [True, False] ()
      = RandomMove_loop m [single_explorer, single_explorer] never_related 0 0 True
        [\<lparr>RawMove = 0, active = True\<rparr>, \<lparr>RawMove = 0, active = False\<rparr>] [0, 0]
        [\<lparr>RawMove = 0, active = False\<rparr>, \<lparr>RawMove = 0, active = False\<rparr>] [True, True] ()"
      unfolding n m
      by (subst RandomMove_loop.simps(2))
        (simp add: RandomMove_while_level_1 [unfolded One_nat_def] set_activity_at_def
          set_move_at_def single_explorer_sels copy_move_at_target Let_def
          del: RandomMove_while.simps RandomMove_loop.simps)
    with RandomMove_loop_cycle [of m] show ?thesis by simp
  qed
qed

text \<open>
  With the incoming elements active, level \<open>1\<close> never comes back to an element that
  equals the inactive initial element: its inner loop does not end.
\<close>

lemma RandomMove_while_level_1_active:
  "RandomMove_while n [single_explorer, single_explorer] never_related 0 1 [0, 0]
     [\<lparr>RawMove = 0, active = False\<rparr>, \<lparr>RawMove = 0, active = False\<rparr>]
     [\<lparr>RawMove = 0, active = True\<rparr>, \<lparr>RawMove = 0, active = True\<rparr>]
   = None"
  by (induction n)
    (simp_all add: single_explorer_sels never_related_def are_related_def next_or_first_def
      set_move_at_def equal_at_def ActiveMove_eq_def)

lemma Cartesian_FirstMove_empty_product:
  "Cartesian_FirstMove 5 [single_explorer, single_explorer] never_related 0
     [\<lparr>RawMove = 0, active = b\<rparr>, \<lparr>RawMove = 0, active = b\<rparr>]
   = Some (Inl EmptyNeighborhood)"
  by (cases b) (simp_all add: Cartesian_FirstMove_def eval_nat_numeral single_explorer_sels
      never_related_def are_related_def set_move_at_def set_activity_at_def)

text \<open>
  Claim C4 (the per-level search of \<^verbatim>\<open>RandomMove\<close> always terminates, and \<^verbatim>\<open>RandomMove\<close>
  returns a chain or fails with \<^verbatim>\<open>EmptyNeighborhood\<close> after finitely many steps) does
  not hold of the code. On the product of two bases with one move each and a
  relatedness predicate that never holds, whatever the activity flag \<open>b\<close> of the
  incoming tuple and however many steps \<open>n\<close> it is given, \<^verbatim>\<open>RandomMove\<close> has not returned;
  \<^verbatim>\<open>FirstMove\<close> on the same input fails with \<^verbatim>\<open>EmptyNeighborhood\<close>.
\<close>

theorem C4_random_move_never_returns_on_empty_product:
  "Cartesian_RandomMove n [single_explorer, single_explorer] never_related 0 0
     [\<lparr>RawMove = 0, active = b\<rparr>, \<lparr>RawMove = 0, active = b\<rparr>] () = None
   \<and> Cartesian_FirstMove 5 [single_explorer, single_explorer] never_related 0
       [\<lparr>RawMove = 0, active = b\<rparr>, \<lparr>RawMove = 0, active = b\<rparr>]
     = Some (Inl EmptyNeighborhood)"
proof -
  have "Cartesian_RandomMove n [single_explorer, single_explorer] never_related 0 0
     [\<lparr>RawMove = 0, active = b\<rparr>, \<lparr>RawMove = 0, active = b\<rparr>] () = None"
  proof (cases n)
    case 0
    then show ?thesis by (simp add: Cartesian_RandomMove_def)
  next
    case n: (Suc m)
    show ?thesis
    proof (cases m)
      case 0
      with n show ?thesis
        by (simp add: Cartesian_RandomMove_def single_explorer_sels set_move_at_def)
    next
      case m: (Suc k)
      show ?thesis
      proof (cases b)
        case False
        have "Cartesian_RandomMove n [single_explorer, single_explorer] never_related 0 0
            [\<lparr>RawMove = 0, active = b\<rparr>, \<lparr>RawMove = 0, active = b\<rparr>] ()
          = RandomMove_loop m [single_explorer, single_explorer] never_related 0 1 False
            [\<lparr>RawMove = 0, active = True\<rparr>, \<lparr>RawMove = 0, active = False\<rparr>] [0, 0]
            [\<lparr>RawMove = 0, active = False\<rparr>, \<lparr>RawMove = 0, active = False\<rparr>]
            [True, False] ()"
          unfolding n m Cartesian_RandomMove_def
          by (subst RandomMove_loop.simps(2))
            (simp add: False RandomMove_while_level_0 set_activity_at_def set_move_at_def
              single_explorer_sels copy_move_at_target Let_def
              del: RandomMove_while.simps RandomMove_loop.simps)
        with RandomMove_loop_level_1_first [of m] show ?thesis by simp
      next
        case True
        have "Cartesian_RandomMove n [single_explorer, single_explorer] never_related 0 0
            [\<lparr>RawMove = 0, active = b\<rparr>, \<lparr>RawMove = 0, active = b\<rparr>] ()
          = RandomMove_loop m [single_explorer, single_explorer] never_related 0 1 False
            [\<lparr>RawMove = 0, active = True\<rparr>, \<lparr>RawMove = 0, active = True\<rparr>] [0, 0]
            [\<lparr>RawMove = 0, active = False\<rparr>, \<lparr>RawMove = 0, active = False\<rparr>]
            [True, False] ()"
          unfolding n m Cartesian_RandomMove_def
          by (subst RandomMove_loop.simps(2))
            (simp add: True RandomMove_while_level_0 set_activity_at_def set_move_at_def
              single_explorer_sels copy_move_at_target Let_def
              del: RandomMove_while.simps RandomMove_loop.simps)
        also have "\<dots> = None"
          unfolding m
          by (subst RandomMove_loop.simps(2))
            (simp add: RandomMove_while_level_1_active [unfolded One_nat_def] set_move_at_def
              single_explorer_sels copy_move_at_target Let_def
              del: RandomMove_while.simps RandomMove_loop.simps)
        finally show ?thesis .
      qed
    qed
  qed
  with Cartesian_FirstMove_empty_product [of b] show ?thesis by simp
qed

end
